theory Spec2Isabelle
  imports Main "HOL-Library.Word"
begin

section \<open>Data model (types.ts)\<close>

text \<open>
  JavaScript strings are sequences of UTF-16 code units; \<open>length\<close>, \<open>slice\<close>, \<open>trim\<close> and
  regular expressions without the \<open>u\<close> flag all count code units. A character outside the
  Basic Multilingual Plane is two code units (a surrogate pair).
\<close>

type_synonym unit16 = "16 word"
type_synonym jsstring = "unit16 list"

record TranscriptionSegment =
  segId :: string
  startTime :: nat
  endTime :: nat
  segText :: jsstring
  translatedText :: "jsstring option"
  isFinal :: bool

record RecordingSession =
  sessId :: string
  title :: jsstring
  date :: jsstring
  sessSegments :: "TranscriptionSegment list"
  duration :: nat
  analysis :: "jsstring option"

datatype RecorderStatus = IDLE | RECORDING | PAUSED | ERROR

section \<open>Text normalizer\<close>

text \<open>
  The character class \<open>.\<close> of a regular expression without the \<open>s\<close> flag matches every
  code unit except the four line terminators.
\<close>

definition isLineTerminator :: "unit16 \<Rightarrow> bool" where
  "isLineTerminator c = (c = 0x0A \<or> c = 0x0D \<or> c = 0x2028 \<or> c = 0x2029)"

definition dot :: "unit16 \<Rightarrow> bool" where
  "dot c = (\<not> isLineTerminator c)"

text \<open>
  \<open>text.replace(/(.)\1{k,}/g, '$1')\<close>: the scan goes left to right; at each position the
  group takes one code unit \<open>c\<close>, the greedy quantifier takes every following copy of \<open>c\<close>
  and needs at least \<open>k\<close> of them; a match is replaced by \<open>c\<close> and the scan goes on behind
  it, a position without a match is copied and the scan moves one unit on.
\<close>

function replaceRuns :: "nat \<Rightarrow> jsstring \<Rightarrow> jsstring" where
  "replaceRuns k [] = []"
| "replaceRuns k (c # cs) =
     (if dot c \<and> k \<le> length (takeWhile (\<lambda>d. d = c) cs)
      then c # replaceRuns k (dropWhile (\<lambda>d. d = c) cs)
      else c # replaceRuns k cs)"
  by pat_completeness auto
termination
  by (relation "measure (\<lambda>(k, s). length s)") (auto simp: length_dropWhile_le less_Suc_eq_le)

text \<open>
  The number of consecutive copies of \<open>x\<close> at the start of \<open>s\<close>: what the greedy
  \<open>\1{2,}\<close> consumes after the group has captured \<open>x\<close>.
\<close>

function countCopies :: "jsstring \<Rightarrow> jsstring \<Rightarrow> nat" where
  "countCopies x s =
     (if x \<noteq> [] \<and> take (length x) s = x
      then Suc (countCopies x (drop (length x) s)) else 0)"
  by pat_completeness auto
termination
proof (relation "measure (\<lambda>(x, s). length s)", goal_cases)
  case 1
  show ?case by simp
next
  case (2 x s)
  then have "x \<noteq> []" and "length (take (length x) s) = length x"
    by simp_all
  then have "0 < length x" and "length x \<le> length s"
    by simp_all
  then show ?case by (cases x) simp_all
qed

text \<open>
  \<open>(.{lo,})\1{2,}\<close> at the start of \<open>s\<close>: the greedy group first takes the longest run of
  \<open>.\<close> units (\<open>l\<close> of them) and backtracks one unit at a time down to \<open>lo\<close>; the first
  length whose capture is followed by at least two copies of itself matches. The result
  is the capture's length and the length of the whole match.
\<close>

primrec tryPhrase :: "nat \<Rightarrow> nat \<Rightarrow> jsstring \<Rightarrow> (nat \<times> nat) option" where
  "tryPhrase lo 0 s = None"
| "tryPhrase lo (Suc l) s =
     (if Suc l < lo then None
      else if 2 \<le> countCopies (take (Suc l) s) (drop (Suc l) s)
      then Some (Suc l, Suc l * Suc (countCopies (take (Suc l) s) (drop (Suc l) s)))
      else tryPhrase lo l s)"

text \<open>\<open>text.replace(/(.{lo,})\1{2,}/g, '$1')\<close>, scanning as above.\<close>

function replacePhrases :: "nat \<Rightarrow> jsstring \<Rightarrow> jsstring" where
  "replacePhrases lo [] = []"
| "replacePhrases lo (c # cs) =
     (case tryPhrase lo (length (takeWhile dot (c # cs))) (c # cs) of
        Some (m, n) \<Rightarrow> take m (c # cs) @ replacePhrases lo (drop n (c # cs))
      | None \<Rightarrow> c # replacePhrases lo cs)"
  by pat_completeness auto
termination
proof (relation "measure (\<lambda>(lo, s). length s)", goal_cases)
  case 1
  show ?case by simp
next
  case (2 lo c cs)
  show ?case by simp
next
  case (3 lo c cs x2 m n)
  have "tryPhrase lo l s = Some (m, n) \<Longrightarrow> 0 < n" for l s
    by (induction l) (auto split: if_splits)
  with 3 show ?case by auto
qed

text \<open>
  \<open>String.prototype.trim\<close> strips the ECMAScript WhiteSpace and LineTerminator code
  points from both ends.
\<close>

definition isWhiteSpace :: "unit16 \<Rightarrow> bool" where
  "isWhiteSpace c =
     (c = 0x09 \<or> c = 0x0A \<or> c = 0x0B \<or> c = 0x0C \<or> c = 0x0D \<or> c = 0x20 \<or> c = 0xA0
      \<or> c = 0x1680 \<or> (0x2000 \<le> c \<and> c \<le> 0x200A) \<or> c = 0x2028 \<or> c = 0x2029
      \<or> c = 0x202F \<or> c = 0x205F \<or> c = 0x3000 \<or> c = 0xFEFF)"

definition trim :: "jsstring \<Rightarrow> jsstring" where
  "trim s = rev (dropWhile isWhiteSpace (rev (dropWhile isWhiteSpace s)))"

text \<open>\<open>cleanText\<close> of types.ts.\<close>

definition cleanText :: "jsstring \<Rightarrow> jsstring" where
  "cleanText txt =
     (if txt = [] then []
      else trim (replacePhrases 4 (replaceRuns 6 txt)))"

text \<open>\<open>cleanHallucinations\<close> of the second revision of the component (part 002).\<close>

definition cleanHallucinations :: "jsstring \<Rightarrow> jsstring" where
  "cleanHallucinations txt = replacePhrases 2 (replaceRuns 5 txt)"

text \<open>String literals of the examples: ASCII text as code units.\<close>

definition ascii :: "string \<Rightarrow> jsstring" where
  "ascii s = map of_char s"

section \<open>Component state (App.tsx, both revisions)\<close>

text \<open>
  The repository holds two revisions of the recorder component: the one stored with
  types.ts (functions named as in the source) and the one of part 002 (functions that
  differ carry the suffix 2). Refs and React state are fields of one record. Values that a
  closure reads from the render that created it (\<open>elapsedTime\<close>, \<open>isBilingual\<close>,
  \<open>viewingSessionId\<close>, \<open>sessions\<close>, \<open>segments\<close>) and the results of \<open>Math.random\<close> and of
  the external services are parameters.
\<close>

datatype jobType = polish | translate

record job =
  jobId :: string
  jobType :: jobType
  retryCount :: nat

text \<open>What the closures of the queue effect capture from their render.\<close>

record env =
  envViewingSessionId :: "string option"
  envSessions :: "RecordingSession list"
  envSegments :: "TranscriptionSegment list"
  envIsBilingual :: bool

text \<open>Pending \<open>setTimeout\<close> callbacks and suspended invocations of \<open>processQueue\<close>.\<close>

datatype callback = PushRetry job env | ProcessQueue env | ConnectToLive

datatype suspended = AwaitCall job TranscriptionSegment env | AwaitDelay nat env

text \<open>
  The outcome of \<open>ai.models.generateContent\<close>: the promise rejects, or it resolves with a
  response whose \<open>text\<close> may be undefined.
\<close>

datatype reply = Rejected | Resolved "jsstring option"

record app =
  status :: RecorderStatus
  statusRef :: RecorderStatus
  segments :: "TranscriptionSegment list"
  segmentsRef :: "TranscriptionSegment list"
  currentTranscription :: jsstring
  sessions :: "RecordingSession list"
  viewingSessionId :: "string option"
  isBilingual :: bool
  elapsedTime :: nat
  transcriptionBuffer :: jsstring
  lastSegmentTime :: nat
  connectionRetryCount :: nat
  isProcessing :: bool
  processingQueue :: "job list"
  baseCooldown :: nat
  timers :: "(nat \<times> callback) list"
  pending :: "suspended list"

text \<open>The state after mount, before anything is loaded from local storage.\<close>

definition initialApp :: "nat \<Rightarrow> app" where
  "initialApp cooldown =
     \<lparr>status = IDLE, statusRef = IDLE, segments = [], segmentsRef = [],
      currentTranscription = [], sessions = [], viewingSessionId = None,
      isBilingual = False, elapsedTime = 0, transcriptionBuffer = [],
      lastSegmentTime = 0, connectionRetryCount = 0, isProcessing = False,
      processingQueue = [], baseCooldown = cooldown, timers = [], pending = []\<rparr>"

definition snapshot :: "app \<Rightarrow> env" where
  "snapshot st =
     \<lparr>envViewingSessionId = viewingSessionId st, envSessions = sessions st,
      envSegments = segments st, envIsBilingual = isBilingual st\<rparr>"

text \<open>JavaScript truthiness of \<open>string | null\<close>: null and the empty string are falsy.\<close>

definition truthy :: "string option \<Rightarrow> bool" where
  "truthy v = (case v of None \<Rightarrow> False | Some i \<Rightarrow> i \<noteq> [])"

section \<open>Segmenter\<close>

definition newJobs :: "string \<Rightarrow> bool \<Rightarrow> job list" where
  "newJobs i bilingual =
     \<lparr>jobId = i, jobType = polish, retryCount = 0\<rparr> #
     (if bilingual then [\<lparr>jobId = i, jobType = translate, retryCount = 0\<rparr>] else [])"

text \<open>\<open>finalizeCurrentSegment\<close> of types.ts.\<close>

definition finalizeCurrentSegment :: "string \<Rightarrow> nat \<Rightarrow> bool \<Rightarrow> app \<Rightarrow> app" where
  "finalizeCurrentSegment newId elapsed bilingual st =
     (let txt = cleanText (transcriptionBuffer st) in
      if txt = [] \<or> length txt < 2 then st
      else
        let newSegment = \<lparr>segId = newId, startTime = lastSegmentTime st, endTime = elapsed,
                           segText = txt, translatedText = None, isFinal = True\<rparr>;
            segs = segmentsRef st @ [newSegment]
        in st\<lparr>segmentsRef := segs, segments := segs, transcriptionBuffer := [],
               currentTranscription := [], lastSegmentTime := elapsed,
               processingQueue := processingQueue st @ newJobs newId bilingual\<rparr>)"

text \<open>\<open>finalizeCurrentSegment\<close> of part 002.\<close>

definition finalizeCurrentSegment2 :: "string \<Rightarrow> nat \<Rightarrow> bool \<Rightarrow> app \<Rightarrow> app" where
  "finalizeCurrentSegment2 newId elapsed bilingual st =
     (let txt = cleanHallucinations (trim (transcriptionBuffer st)) in
      if txt = [] \<or> length txt < 1 then st
      else
        let newSegment = \<lparr>segId = newId, startTime = lastSegmentTime st,
                           endTime = max elapsed (lastSegmentTime st + 1),
                           segText = txt, translatedText = None, isFinal = True\<rparr>;
            segs = segmentsRef st @ [newSegment]
        in st\<lparr>segmentsRef := segs, segments := segs, transcriptionBuffer := [],
               currentTranscription := [], lastSegmentTime := endTime newSegment,
               processingQueue := processingQueue st @ newJobs newId bilingual\<rparr>)"

text \<open>
  An inbound server message: a transcription delta, a turn-complete signal, or both.
  The test \<open>/[...]/.test(liveText.slice(-1))\<close> looks at the last code unit.
\<close>

record message =
  inputTranscription :: "jsstring option"
  turnComplete :: bool

definition sentenceEnd :: "jsstring \<Rightarrow> bool" where
  "sentenceEnd s =
     (s \<noteq> [] \<and> last s \<in> {0x3002, 0xFF01, 0xFF1F, 0x2E, 0x21, 0x3F, 0x0A})"

definition onmessage :: "message \<Rightarrow> string \<Rightarrow> string \<Rightarrow> nat \<Rightarrow> bool \<Rightarrow> app \<Rightarrow> app" where
  "onmessage m id1 id2 elapsed bilingual st =
     (let st1 =
        (case inputTranscription m of
           None \<Rightarrow> st
         | Some textChunk \<Rightarrow>
             let st' = st\<lparr>transcriptionBuffer := transcriptionBuffer st @ textChunk\<rparr>;
                 liveText = cleanText (transcriptionBuffer st');
                 st'' = st'\<lparr>currentTranscription := liveText\<rparr>
             in if 120 < length liveText \<or> (25 < length liveText \<and> sentenceEnd liveText)
                then finalizeCurrentSegment id1 elapsed bilingual st''
                else st'')
      in if turnComplete m then finalizeCurrentSegment id2 elapsed bilingual st1 else st1)"

definition onmessage2 :: "message \<Rightarrow> string \<Rightarrow> string \<Rightarrow> nat \<Rightarrow> bool \<Rightarrow> app \<Rightarrow> app" where
  "onmessage2 m id1 id2 elapsed bilingual st =
     (let st1 =
        (case inputTranscription m of
           None \<Rightarrow> st
         | Some textChunk \<Rightarrow>
             let st' = st\<lparr>transcriptionBuffer :=
                           transcriptionBuffer st @ cleanHallucinations textChunk\<rparr>;
                 cleanedText = cleanHallucinations (transcriptionBuffer st');
                 st'' = st'\<lparr>currentTranscription := cleanedText\<rparr>
             in if 50 < length cleanedText \<or> (8 < length cleanedText \<and> sentenceEnd cleanedText)
                then finalizeCurrentSegment2 id1 elapsed bilingual st''
                else st'')
      in if turnComplete m then finalizeCurrentSegment2 id2 elapsed bilingual st1 else st1)"

section \<open>Enrichment queue\<close>

definition activeSegments :: "env \<Rightarrow> TranscriptionSegment list option" where
  "activeSegments e =
     (if truthy (envViewingSessionId e)
      then map_option sessSegments
             (find (\<lambda>s. Some (sessId s) = envViewingSessionId e) (envSessions e))
      else Some (envSegments e))"

definition lookupSegment :: "env \<Rightarrow> job \<Rightarrow> TranscriptionSegment option" where
  "lookupSegment e item =
     (case activeSegments e of
        None \<Rightarrow> None
      | Some segs \<Rightarrow> find (\<lambda>s. segId s = jobId item) segs)"

text \<open>The two \<open>updateFn\<close> closures and the write-through to the viewed session.\<close>

definition setText :: "string \<Rightarrow> jsstring \<Rightarrow> TranscriptionSegment list \<Rightarrow> TranscriptionSegment list" where
  "setText i t prev = map (\<lambda>s. if segId s = i then s\<lparr>segText := t\<rparr> else s) prev"

definition setTranslated :: "string \<Rightarrow> jsstring \<Rightarrow> TranscriptionSegment list \<Rightarrow> TranscriptionSegment list" where
  "setTranslated i t prev = map (\<lambda>s. if segId s = i then s\<lparr>translatedText := Some t\<rparr> else s) prev"

definition inSession ::
  "string option \<Rightarrow> (TranscriptionSegment list \<Rightarrow> TranscriptionSegment list) \<Rightarrow>
   RecordingSession list \<Rightarrow> RecordingSession list" where
  "inSession v updateFn prev =
     (if truthy v
      then map (\<lambda>session. if Some (sessId session) = v
                           then session\<lparr>sessSegments := updateFn (sessSegments session)\<rparr>
                           else session) prev
      else prev)"

text \<open>\<open>response.text?.trim() || fallback\<close>.\<close>

definition trimmedOr :: "jsstring option \<Rightarrow> jsstring \<Rightarrow> jsstring" where
  "trimmedOr t fallback =
     (case t of None \<Rightarrow> fallback | Some x \<Rightarrow> if trim x = [] then fallback else trim x)"

text \<open>
  \<open>polishSegment\<close> and \<open>translateSegment\<close> of types.ts, from the point where the awaited
  call settles; the result is the returned success flag and the new state.
\<close>

definition polishSegment :: "env \<Rightarrow> TranscriptionSegment \<Rightarrow> reply \<Rightarrow> app \<Rightarrow> bool \<times> app" where
  "polishSegment e segment r st =
     (case r of
        Rejected \<Rightarrow> (False, st)
      | Resolved t \<Rightarrow>
          let polished = trimmedOr t (segText segment);
              updateFn = setText (segId segment) polished
          in (True, st\<lparr>segments := updateFn (segments st),
                        sessions := inSession (envViewingSessionId e) updateFn (sessions st)\<rparr>))"

definition translateSegment :: "env \<Rightarrow> TranscriptionSegment \<Rightarrow> reply \<Rightarrow> app \<Rightarrow> bool \<times> app" where
  "translateSegment e segment r st =
     (case r of
        Rejected \<Rightarrow> (False, st)
      | Resolved t \<Rightarrow>
          let translated = trimmedOr t [];
              updateFn = setTranslated (segId segment) translated
          in (True, st\<lparr>segments := updateFn (segments st),
                        sessions := inSession (envViewingSessionId e) updateFn (sessions st)\<rparr>))"

text \<open>The same two functions in part 002.\<close>

definition polishSegment2 :: "env \<Rightarrow> TranscriptionSegment \<Rightarrow> reply \<Rightarrow> app \<Rightarrow> bool \<times> app" where
  "polishSegment2 e segment r st =
     (case r of
        Rejected \<Rightarrow> (False, st)
      | Resolved t \<Rightarrow>
          let polished = trimmedOr t (segText segment) in
          if polished = segText segment then (True, st)
          else
            let updateFn = setText (segId segment) polished
            in (True, st\<lparr>segments := updateFn (segments st),
                          segmentsRef := updateFn (segmentsRef st),
                          sessions := inSession (envViewingSessionId e) updateFn (sessions st)\<rparr>))"

definition translateSegment2 :: "env \<Rightarrow> TranscriptionSegment \<Rightarrow> reply \<Rightarrow> app \<Rightarrow> bool \<times> app" where
  "translateSegment2 e segment r st =
     (case r of
        Rejected \<Rightarrow> (False, st)
      | Resolved t \<Rightarrow>
          let translated = trimmedOr t [];
              updateFn = setTranslated (segId segment) translated
          in (True, st\<lparr>segments := updateFn (segments st),
                        segmentsRef := updateFn (segmentsRef st),
                        sessions := inSession (envViewingSessionId e) updateFn (sessions st)\<rparr>))"

text \<open>
  \<open>processQueue\<close> of types.ts up to its first \<open>await\<close>. A job whose segment cannot be
  resolved is dropped and the function calls itself. A translate job met with bilingual
  mode off counts as a success without a call and goes straight to the cooldown wait.
  (\<open>shift\<close> on a non-empty array returns an object, so \<open>if (!item) return\<close> never fires.)
\<close>

function processQueue :: "env \<Rightarrow> app \<Rightarrow> app" where
  "processQueue e st =
     (if isProcessing st \<or> processingQueue st = [] then st
      else
        let item = hd (processingQueue st);
            st1 = st\<lparr>processingQueue := tl (processingQueue st)\<rparr>
        in case lookupSegment e item of
             None \<Rightarrow> processQueue e st1
           | Some segment \<Rightarrow>
               let st2 = st1\<lparr>isProcessing := True\<rparr> in
               if jobType item = polish \<or> (jobType item = translate \<and> envIsBilingual e)
               then st2\<lparr>pending := pending st2 @ [AwaitCall item segment e]\<rparr>
               else st2\<lparr>pending := pending st2 @ [AwaitDelay (baseCooldown st2) e]\<rparr>)"
  by pat_completeness auto
termination
  by (relation "measure (\<lambda>(e, st). length (processingQueue st))") auto

definition finallyBlock :: "env \<Rightarrow> app \<Rightarrow> app" where
  "finallyBlock e st =
     st\<lparr>isProcessing := False, timers := timers st @ [(1000, ProcessQueue e)]\<rparr>"

text \<open>The rest of the \<open>try\<close> block once the awaited call has settled.\<close>

definition resumeCall :: "job \<Rightarrow> TranscriptionSegment \<Rightarrow> env \<Rightarrow> reply \<Rightarrow> app \<Rightarrow> app" where
  "resumeCall item segment e r st =
     (let (success, st1) =
            (if jobType item = polish then polishSegment e segment r st
             else translateSegment e segment r st)
      in if success
         then st1\<lparr>pending := pending st1 @ [AwaitDelay (baseCooldown st1) e]\<rparr>
         else if retryCount item < 5
         then finallyBlock e
                (st1\<lparr>timers := timers st1 @
                   [(2 ^ retryCount item * 2000,
                     PushRetry (item\<lparr>retryCount := retryCount item + 1\<rparr>) e)]\<rparr>)
         else finallyBlock e st1)"

text \<open>Part 002: the cooldown adapts, and the \<open>finally\<close> block drains on directly.\<close>

function processQueue2 :: "env \<Rightarrow> app \<Rightarrow> app" where
  "processQueue2 e st =
     (if isProcessing st \<or> processingQueue st = [] then st
      else
        let item = hd (processingQueue st);
            st1 = st\<lparr>processingQueue := tl (processingQueue st)\<rparr>
        in case lookupSegment e item of
             None \<Rightarrow> processQueue2 e st1
           | Some segment \<Rightarrow>
               let st2 = st1\<lparr>isProcessing := True\<rparr> in
               if jobType item = polish \<or> (jobType item = translate \<and> envIsBilingual e)
               then st2\<lparr>pending := pending st2 @ [AwaitCall item segment e]\<rparr>
               else
                 let st3 = st2\<lparr>baseCooldown := max 2000 (baseCooldown st2 - 500)\<rparr>
                 in st3\<lparr>pending := pending st3 @ [AwaitDelay (baseCooldown st3) e]\<rparr>)"
  by pat_completeness auto
termination
  by (relation "measure (\<lambda>(e, st). length (processingQueue st))") auto

definition finallyBlock2 :: "env \<Rightarrow> app \<Rightarrow> app" where
  "finallyBlock2 e st = processQueue2 e (st\<lparr>isProcessing := False\<rparr>)"

definition resumeCall2 :: "job \<Rightarrow> TranscriptionSegment \<Rightarrow> env \<Rightarrow> reply \<Rightarrow> app \<Rightarrow> app" where
  "resumeCall2 item segment e r st =
     (let (success, st1) =
            (if jobType item = polish then polishSegment2 e segment r st
             else translateSegment2 e segment r st)
      in if success
         then
           let st2 = st1\<lparr>baseCooldown := max 2000 (baseCooldown st1 - 500)\<rparr>
           in st2\<lparr>pending := pending st2 @ [AwaitDelay (baseCooldown st2) e]\<rparr>
         else if retryCount item < 5
         then
           let st2 = st1\<lparr>baseCooldown := min 15000 (baseCooldown st1 + 2000)\<rparr>;
               st3 = st2\<lparr>timers := timers st2 @
                       [(2 ^ retryCount item * 2000,
                         PushRetry (item\<lparr>retryCount := retryCount item + 1\<rparr>) e)]\<rparr>
           in st3\<lparr>pending := pending st3 @ [AwaitDelay 1000 e]\<rparr>
         else finallyBlock2 e st1)"

section \<open>Connection manager\<close>

text \<open>
  The \<open>onerror\<close> and \<open>onopen\<close> callbacks of \<open>connectToLive\<close> (types.ts). The counter is
  incremented before the backoff is computed from it.
\<close>

definition onerror :: "app \<Rightarrow> app" where
  "onerror st =
     (if connectionRetryCount st < 5 \<and> statusRef st \<noteq> IDLE
      then
        let st1 = st\<lparr>connectionRetryCount := connectionRetryCount st + 1\<rparr>;
            backoff = min 15000 (2 ^ connectionRetryCount st1 * 1000)
        in st1\<lparr>timers := timers st1 @ [(backoff, ConnectToLive)]\<rparr>
      else if 5 \<le> connectionRetryCount st then st\<lparr>status := ERROR\<rparr>
      else st)"

definition onopen :: "app \<Rightarrow> app" where
  "onopen st = st\<lparr>connectionRetryCount := 0\<rparr>"

text \<open>
  \<open>connectToLive\<close>: nothing happens unless the recorder is recording or paused; a
  connection attempt that throws sets the error status. The outcome of an attempt that
  does not throw arrives later through \<open>onopen\<close> or \<open>onerror\<close>.
\<close>

definition connectToLive :: "bool \<Rightarrow> app \<Rightarrow> app" where
  "connectToLive throws st =
     (if statusRef st \<noteq> RECORDING \<and> statusRef st \<noteq> PAUSED then st
      else if throws then st\<lparr>status := ERROR\<rparr> else st)"

text \<open>Part 002 has no reconnect: \<open>onerror: (e) => setStatus(RecorderStatus.ERROR)\<close>.\<close>

definition onerror2 :: "app \<Rightarrow> app" where
  "onerror2 st = st\<lparr>status := ERROR\<rparr>"

section \<open>Recording lifecycle\<close>

definition startRecording :: "bool \<Rightarrow> app \<Rightarrow> app" where
  "startRecording micGranted st =
     (let st1 = st\<lparr>viewingSessionId := None, segments := [], segmentsRef := [],
                   elapsedTime := 0, lastSegmentTime := 0, transcriptionBuffer := [],
                   processingQueue := [], connectionRetryCount := 0\<rparr>
      in if micGranted
         then st1\<lparr>status := RECORDING, timers := timers st1 @ [(300, ConnectToLive)]\<rparr>
         else st1\<lparr>status := ERROR\<rparr>)"

definition startRecording2 :: "bool \<Rightarrow> app \<Rightarrow> app" where
  "startRecording2 micGranted st =
     (let st1 = st\<lparr>viewingSessionId := None, segments := [], segmentsRef := [],
                   elapsedTime := 0, lastSegmentTime := 0, transcriptionBuffer := [],
                   processingQueue := []\<rparr>
      in if micGranted then st1\<lparr>status := RECORDING\<rparr> else st1\<lparr>status := ERROR\<rparr>)"

definition pauseRecording :: "app \<Rightarrow> app" where
  "pauseRecording st = st\<lparr>status := PAUSED\<rparr>"

definition resumeRecording :: "app \<Rightarrow> app" where
  "resumeRecording st = st\<lparr>status := RECORDING\<rparr>"

definition pauseRecording2 :: "string \<Rightarrow> app \<Rightarrow> app" where
  "pauseRecording2 newId st =
     (if status st \<noteq> RECORDING then st
      else finalizeCurrentSegment2 newId (elapsedTime st) (isBilingual st)
             (st\<lparr>status := PAUSED\<rparr>))"

definition resumeRecording2 :: "app \<Rightarrow> app" where
  "resumeRecording2 st = (if status st \<noteq> PAUSED then st else st\<lparr>status := RECORDING\<rparr>)"

text \<open>
  \<open>stopRecording\<close> of types.ts up to the title request (which later only rewrites the
  new session's title). \<open>segId\<close> and \<open>sessionId\<close> are the two \<open>Math.random\<close> ids,
  \<open>timestamp\<close> the formatted date.
\<close>

definition stopRecording :: "string \<Rightarrow> string \<Rightarrow> jsstring \<Rightarrow> app \<Rightarrow> app" where
  "stopRecording newSegId sessionId timestamp st =
     (if status st = IDLE then st
      else
        let st1 = finalizeCurrentSegment newSegId (elapsedTime st) (isBilingual st) st;
            newSession = \<lparr>sessId = sessionId, title = ascii ''Synthesizing Title...'',
                           date = timestamp, sessSegments = segmentsRef st1,
                           duration = elapsedTime st, analysis = None\<rparr>
        in st1\<lparr>sessions := newSession # sessions st, status := IDLE,
                viewingSessionId := Some sessionId, segments := [], segmentsRef := []\<rparr>)"

text \<open>\<open>stopRecording\<close> of part 002: its last statement empties the job queue.\<close>

definition stopRecording2 :: "string \<Rightarrow> string \<Rightarrow> jsstring \<Rightarrow> jsstring \<Rightarrow> app \<Rightarrow> app" where
  "stopRecording2 newSegId sessionId lessonTitle today st =
     (if status st = IDLE then st
      else
        let st1 = finalizeCurrentSegment2 newSegId (elapsedTime st) (isBilingual st) st;
            newSession = \<lparr>sessId = sessionId, title = lessonTitle,
                           date = today, sessSegments = segmentsRef st1,
                           duration = elapsedTime st, analysis = None\<rparr>
        in st1\<lparr>sessions := newSession # sessions st, status := IDLE,
                viewingSessionId := Some sessionId, segments := [], segmentsRef := [],
                processingQueue := []\<rparr>)"

section \<open>The event loop\<close>

text \<open>
  Everything runs on one thread: between two suspension points a callback runs to its
  end. An event is one such run. Timers may fire in any order and at any time (a sound
  over-approximation of their delays), a settled call or an elapsed wait resumes the
  suspended invocation that waits for it, and the user and the server may act at any time.
\<close>

datatype revision = TypesTs | Part002

datatype event =
    Render
  | Tick
  | Message message string string nat bool
  | Fire nat bool
  | Settle nat reply
  | Wake nat
  | Start bool
  | Pause string
  | Resume
  | Stop string string jsstring jsstring
  | SetBilingual bool
  | View "string option"
  | Open
  | TransportError

definition removeAt :: "nat \<Rightarrow> 'a list \<Rightarrow> 'a list" where
  "removeAt i xs = take i xs @ drop (Suc i) xs"

definition runCallback :: "revision \<Rightarrow> bool \<Rightarrow> callback \<Rightarrow> app \<Rightarrow> app" where
  "runCallback rv throws cb st =
     (case cb of
        PushRetry j e \<Rightarrow>
          (case rv of
             TypesTs \<Rightarrow> st\<lparr>processingQueue := processingQueue st @ [j]\<rparr>
           | Part002 \<Rightarrow> processQueue2 e (st\<lparr>processingQueue := processingQueue st @ [j]\<rparr>))
      | ProcessQueue e \<Rightarrow>
          (case rv of TypesTs \<Rightarrow> processQueue e st | Part002 \<Rightarrow> processQueue2 e st)
      | ConnectToLive \<Rightarrow> connectToLive throws st)"

definition resume :: "revision \<Rightarrow> suspended \<Rightarrow> reply \<Rightarrow> app \<Rightarrow> app" where
  "resume rv c r st =
     (case c of
        AwaitCall item segment e \<Rightarrow>
          (case rv of
             TypesTs \<Rightarrow> resumeCall item segment e r st
           | Part002 \<Rightarrow> resumeCall2 item segment e r st)
      | AwaitDelay d e \<Rightarrow>
          (case rv of TypesTs \<Rightarrow> finallyBlock e st | Part002 \<Rightarrow> finallyBlock2 e st))"

definition isCall :: "suspended \<Rightarrow> bool" where
  "isCall c = (case c of AwaitCall item segment e \<Rightarrow> True | AwaitDelay d e \<Rightarrow> False)"

definition step :: "revision \<Rightarrow> event \<Rightarrow> app \<Rightarrow> app" where
  "step rv ev st =
     (case ev of
        Render \<Rightarrow>
          (let st1 = st\<lparr>statusRef := status st\<rparr> in
           case rv of
             TypesTs \<Rightarrow> processQueue (snapshot st1) st1
           | Part002 \<Rightarrow> processQueue2 (snapshot st1) st1)
      | Tick \<Rightarrow>
          (if status st = RECORDING then st\<lparr>elapsedTime := elapsedTime st + 1\<rparr> else st)
      | Message m id1 id2 elapsed bilingual \<Rightarrow>
          (case rv of
             TypesTs \<Rightarrow> onmessage m id1 id2 elapsed bilingual st
           | Part002 \<Rightarrow> onmessage2 m id1 id2 elapsed bilingual st)
      | Fire i throws \<Rightarrow>
          (if i < length (timers st)
           then runCallback rv throws (snd (timers st ! i))
                  (st\<lparr>timers := removeAt i (timers st)\<rparr>)
           else st)
      | Settle i r \<Rightarrow>
          (if i < length (pending st) \<and> isCall (pending st ! i)
           then resume rv (pending st ! i) r (st\<lparr>pending := removeAt i (pending st)\<rparr>)
           else st)
      | Wake i \<Rightarrow>
          (if i < length (pending st) \<and> \<not> isCall (pending st ! i)
           then resume rv (pending st ! i) Rejected (st\<lparr>pending := removeAt i (pending st)\<rparr>)
           else st)
      | Start micGranted \<Rightarrow>
          (case rv of
             TypesTs \<Rightarrow> startRecording micGranted st
           | Part002 \<Rightarrow> startRecording2 micGranted st)
      | Pause newId \<Rightarrow>
          (case rv of TypesTs \<Rightarrow> pauseRecording st | Part002 \<Rightarrow> pauseRecording2 newId st)
      | Resume \<Rightarrow>
          (case rv of TypesTs \<Rightarrow> resumeRecording st | Part002 \<Rightarrow> resumeRecording2 st)
      | Stop newSegId sessionId t1 t2 \<Rightarrow>
          (case rv of
             TypesTs \<Rightarrow> stopRecording newSegId sessionId t2 st
           | Part002 \<Rightarrow> stopRecording2 newSegId sessionId t1 t2 st)
      | SetBilingual b \<Rightarrow> st\<lparr>isBilingual := b\<rparr>
      | View v \<Rightarrow> st\<lparr>viewingSessionId := v\<rparr>
      | Open \<Rightarrow> (case rv of TypesTs \<Rightarrow> onopen st | Part002 \<Rightarrow> st)
      | TransportError \<Rightarrow> (case rv of TypesTs \<Rightarrow> onerror st | Part002 \<Rightarrow> onerror2 st))"

primrec run :: "revision \<Rightarrow> event list \<Rightarrow> app \<Rightarrow> app" where
  "run rv [] st = st"
| "run rv (ev # evs) st = run rv evs (step rv ev st)"

text \<open>The number of external refinement calls that are outstanding.\<close>

definition outstanding :: "app \<Rightarrow> nat" where
  "outstanding st = length (filter isCall (pending st))"

text \<open>An example run: a recording starts, one utterance arrives and its polish call is dispatched.\<close>

definition demoEvents :: "event list" where
  "demoEvents =
     [Start True,
      Message \<lparr>inputTranscription = Some (ascii ''hello world''), turnComplete = True\<rparr>
        ''s1'' ''s2'' 1 True,
      Render]"

text \<open>
  The worker's invariant: at most one invocation of \<open>processQueue\<close> is suspended, and the
  busy flag is set exactly while one is.
\<close>

definition queueInv :: "app \<Rightarrow> bool" where
  "queueInv st = (length (pending st) \<le> 1 \<and> (isProcessing st = (pending st \<noteq> [])))"

text \<open>A concrete job and its segment, for the examples.\<close>

definition demoJob :: job where
  "demoJob = \<lparr>jobId = ''s2'', jobType = polish, retryCount = 0\<rparr>"

definition demoSegment :: TranscriptionSegment where
  "demoSegment =
     \<lparr>segId = ''s2'', startTime = 0, endTime = 1, segText = ascii ''hello world'',
      translatedText = None, isFinal = True\<rparr>"

text \<open>A recorder that is recording, with one job queued.\<close>

definition recordingApp :: app where
  "recordingApp =
     (initialApp 3500)\<lparr>status := RECORDING, statusRef := RECORDING,
                        processingQueue := [demoJob]\<rparr>"

text \<open>A reply is blank when it has no text or only white space.\<close>

definition blank :: "jsstring option \<Rightarrow> bool" where
  "blank t = (case t of None \<Rightarrow> True | Some x \<Rightarrow> trim x = [])"

definition textsNonEmpty :: "TranscriptionSegment list \<Rightarrow> bool" where
  "textsNonEmpty segs = list_all (\<lambda>s. segText s \<noteq> []) segs"

text \<open>
  The timeline of a segment list, read from its end: the last segment ends at \<open>t\<close>, every
  segment starts where its predecessor ends, and every segment is longer than zero.
\<close>

primrec chainedTo :: "nat \<Rightarrow> TranscriptionSegment list \<Rightarrow> bool" where
  "chainedTo t [] = True"
| "chainedTo t (s # ss) = (endTime s = t \<and> startTime s < endTime s \<and> chainedTo (startTime s) ss)"

definition timelineInv :: "app \<Rightarrow> bool" where
  "timelineInv st = chainedTo (lastSegmentTime st) (rev (segmentsRef st))"

text \<open>A state whose live list holds the example segment.\<close>

definition demoApp :: app where
  "demoApp = (initialApp 3500)\<lparr>segments := [demoSegment], segmentsRef := [demoSegment]\<rparr>"

text \<open>
  No position of \<open>s\<close> starts a run that \<open>(.)\1{k,}\<close> matches: no \<open>.\<close> unit is followed by
  \<open>k\<close> or more copies of itself.
\<close>

primrec noRun :: "nat \<Rightarrow> jsstring \<Rightarrow> bool" where
  "noRun k [] = True"
| "noRun k (c # cs) = (\<not> (dot c \<and> k \<le> length (takeWhile (\<lambda>d. d = c) cs)) \<and> noRun k cs)"

text \<open>No position of \<open>s\<close> starts a match of \<open>(.{lo,})\1{2,}\<close>.\<close>

primrec noPhrase :: "nat \<Rightarrow> jsstring \<Rightarrow> bool" where
  "noPhrase lo [] = True"
| "noPhrase lo (c # cs) =
     (tryPhrase lo (length (takeWhile dot (c # cs))) (c # cs) = None \<and> noPhrase lo cs)"

text \<open>
  UTF-16, as JavaScript strings store text: a code point of the Basic Multilingual Plane
  is one code unit, any other code point is a surrogate pair.
\<close>

definition utf16 :: "nat \<Rightarrow> jsstring" where
  "utf16 cp =
     (if cp < 0x10000 then [of_nat cp]
      else [of_nat (0xD800 + (cp - 0x10000) div 0x400),
            of_nat (0xDC00 + (cp - 0x10000) mod 0x400)])"

definition encode :: "nat list \<Rightarrow> jsstring" where
  "encode cps = concat (map utf16 cps)"

text \<open>
  The three stores a polish result can reach: the live list, its ref, and the segment
  lists of the archived sessions. All texts are non-empty, and: all segments with id \<open>i\<close>
  have the text \<open>x\<close>.
\<close>

definition storeNonEmpty :: "app \<Rightarrow> bool" where
  "storeNonEmpty st =
     (textsNonEmpty (segments st) \<and> textsNonEmpty (segmentsRef st)
      \<and> list_all (\<lambda>session. textsNonEmpty (sessSegments session)) (sessions st))"

definition targetText :: "string \<Rightarrow> jsstring \<Rightarrow> app \<Rightarrow> bool" where
  "targetText i x st =
     (list_all (\<lambda>s. segId s \<noteq> i \<or> segText s = x) (segments st)
      \<and> list_all (\<lambda>s. segId s \<noteq> i \<or> segText s = x) (segmentsRef st)
      \<and> list_all (\<lambda>session. list_all (\<lambda>s. segId s \<noteq> i \<or> segText s = x)
                     (sessSegments session)) (sessions st))"

text \<open>The example state after a stop: the segment lives in the archived session only.\<close>

definition archivedApp :: app where
  "archivedApp = stopRecording ''s9'' ''r1'' (ascii ''today'') (demoApp\<lparr>status := RECORDING\<rparr>)"


text \<open>
  Two utterances, the first polish call dispatched, then a stop while that call is
  outstanding; the worker goes on from the invocation that was suspended before the stop.
\<close>

definition staleReplay :: "event list" where
  "staleReplay =
     [Start True,
      Message \<lparr>inputTranscription = Some (ascii ''hello world''), turnComplete = True\<rparr>
        ''a1'' ''s1'' 1 False,
      Message \<lparr>inputTranscription = Some (ascii ''second one''), turnComplete = True\<rparr>
        ''a2'' ''s2'' 2 False,
      Render,
      Stop ''s3'' ''r1'' (ascii ''today'') (ascii ''today''),
      Settle 0 (Resolved (Some (ascii ''Hello world.''))),
      Wake 0,
      Fire 1 False,
      Settle 0 (Resolved (Some (ascii ''Second one.'')))]"

text \<open>
  A repeated phrase at position \<open>i\<close>: \<open>L\<close> code units, none of them a line terminator,
  followed by two more copies of themselves. This is what \<open>(.{lo,})\1{2,}\<close> matches at
  \<open>i\<close> for some \<open>L \<ge> lo\<close>.
\<close>

definition repeatsAt :: "nat \<Rightarrow> nat \<Rightarrow> jsstring \<Rightarrow> bool" where
  "repeatsAt L i t =
     (0 < L \<and> i + 3 * L \<le> length t
      \<and> list_all dot (take L (drop i t))
      \<and> take L (drop (i + L) t) = take L (drop i t)
      \<and> take L (drop (i + 2 * L) t) = take L (drop i t))"

declare processQueue.simps [simp del] processQueue2.simps [simp del] countCopies.simps [simp del]

section \<open>Properties of the enrichment queue\<close>

lemma processQueue_busy: "isProcessing st \<Longrightarrow> processQueue e st = st"
  by (subst processQueue.simps) simp

lemma processQueue2_busy: "isProcessing st \<Longrightarrow> processQueue2 e st = st"
  by (subst processQueue2.simps) simp

lemma processQueue_inv: "queueInv st \<Longrightarrow> queueInv (processQueue e st)"
proof (induction e st rule: processQueue.induct)
  case (1 e st)
  show ?case
  proof (cases "isProcessing st \<or> processingQueue st = []")
    case True
    then have "processQueue e st = st" by (subst processQueue.simps) simp
    with 1 show ?thesis by simp
  next
    case False
    let ?item = "hd (processingQueue st)"
    let ?st1 = "st\<lparr>processingQueue := tl (processingQueue st)\<rparr>"
    have inv1: "queueInv ?st1" using "1.prems" by (simp add: queueInv_def)
    show ?thesis
    proof (cases "lookupSegment e ?item")
      case None
      then have "processQueue e st = processQueue e ?st1"
        using False by (subst processQueue.simps) (simp add: Let_def)
      moreover have "queueInv (processQueue e ?st1)"
        using "1.IH"[OF False refl refl None inv1] .
      ultimately show ?thesis by simp
    next
      case (Some seg)
      have idle: "pending st = []" using False "1.prems" by (simp add: queueInv_def)
      show ?thesis
        using False Some idle
        by (subst processQueue.simps) (simp add: Let_def queueInv_def)
    qed
  qed
qed

lemma processQueue2_inv: "queueInv st \<Longrightarrow> queueInv (processQueue2 e st)"
proof (induction e st rule: processQueue2.induct)
  case (1 e st)
  show ?case
  proof (cases "isProcessing st \<or> processingQueue st = []")
    case True
    then have "processQueue2 e st = st" by (subst processQueue2.simps) simp
    with 1 show ?thesis by simp
  next
    case False
    let ?item = "hd (processingQueue st)"
    let ?st1 = "st\<lparr>processingQueue := tl (processingQueue st)\<rparr>"
    have inv1: "queueInv ?st1" using "1.prems" by (simp add: queueInv_def)
    show ?thesis
    proof (cases "lookupSegment e ?item")
      case None
      then have "processQueue2 e st = processQueue2 e ?st1"
        using False by (subst processQueue2.simps) (simp add: Let_def)
      moreover have "queueInv (processQueue2 e ?st1)"
        using "1.IH"[OF False refl refl None inv1] .
      ultimately show ?thesis by simp
    next
      case (Some seg)
      have idle: "pending st = []" using False "1.prems" by (simp add: queueInv_def)
      show ?thesis
        using False Some idle
        by (subst processQueue2.simps) (simp add: Let_def queueInv_def)
    qed
  qed
qed

lemma finalize_frame:
  "pending (finalizeCurrentSegment i el b st) = pending st"
  "isProcessing (finalizeCurrentSegment i el b st) = isProcessing st"
  "pending (finalizeCurrentSegment2 i el b st) = pending st"
  "isProcessing (finalizeCurrentSegment2 i el b st) = isProcessing st"
  by (simp_all add: finalizeCurrentSegment_def finalizeCurrentSegment2_def Let_def)

lemma finalize_inv:
  "queueInv (finalizeCurrentSegment i el b st) = queueInv st"
  "queueInv (finalizeCurrentSegment2 i el b st) = queueInv st"
  by (simp_all add: queueInv_def finalize_frame)

lemma queueInv_upd [simp]:
  "queueInv (st\<lparr>transcriptionBuffer := x1\<rparr>) = queueInv st"
  "queueInv (st\<lparr>currentTranscription := x2\<rparr>) = queueInv st"
  "queueInv (st\<lparr>processingQueue := x3\<rparr>) = queueInv st"
  "queueInv (st\<lparr>timers := x4\<rparr>) = queueInv st"
  "queueInv (st\<lparr>status := x5\<rparr>) = queueInv st"
  "queueInv (st\<lparr>statusRef := x6\<rparr>) = queueInv st"
  "queueInv (st\<lparr>segments := x7\<rparr>) = queueInv st"
  "queueInv (st\<lparr>segmentsRef := x8\<rparr>) = queueInv st"
  "queueInv (st\<lparr>sessions := x9\<rparr>) = queueInv st"
  "queueInv (st\<lparr>viewingSessionId := x10\<rparr>) = queueInv st"
  "queueInv (st\<lparr>isBilingual := x11\<rparr>) = queueInv st"
  "queueInv (st\<lparr>elapsedTime := x12\<rparr>) = queueInv st"
  "queueInv (st\<lparr>lastSegmentTime := x13\<rparr>) = queueInv st"
  "queueInv (st\<lparr>connectionRetryCount := x14\<rparr>) = queueInv st"
  "queueInv (st\<lparr>baseCooldown := x15\<rparr>) = queueInv st"
  by (simp_all add: queueInv_def)

lemma onmessage_inv: "queueInv (onmessage m i1 i2 el b st) = queueInv st"
  by (simp add: onmessage_def Let_def finalize_inv split: option.splits)

lemma onmessage2_inv: "queueInv (onmessage2 m i1 i2 el b st) = queueInv st"
  by (simp add: onmessage2_def Let_def finalize_inv split: option.splits)

lemma calls_frame:
  "pending (snd (polishSegment e seg r st)) = pending st"
  "isProcessing (snd (polishSegment e seg r st)) = isProcessing st"
  "pending (snd (translateSegment e seg r st)) = pending st"
  "isProcessing (snd (translateSegment e seg r st)) = isProcessing st"
  "pending (snd (polishSegment2 e seg r st)) = pending st"
  "isProcessing (snd (polishSegment2 e seg r st)) = isProcessing st"
  "pending (snd (translateSegment2 e seg r st)) = pending st"
  "isProcessing (snd (translateSegment2 e seg r st)) = isProcessing st"
  by (simp_all add: polishSegment_def translateSegment_def polishSegment2_def
        translateSegment2_def Let_def split: reply.splits)

lemma resumeCall_inv:
  assumes "isProcessing st" "pending st = []"
  shows "queueInv (resumeCall item seg e r st)"
proof -
  obtain ok st1 where c: "(if jobType item = polish then polishSegment e seg r st
             else translateSegment e seg r st) = (ok, st1)" by force
  then have "st1 = snd (if jobType item = polish then polishSegment e seg r st
             else translateSegment e seg r st)" by simp
  then have f: "pending st1 = []" "isProcessing st1"
    using assms by (simp_all add: calls_frame split: if_splits)
  show ?thesis
    unfolding resumeCall_def c using f
    by (simp add: Let_def finallyBlock_def queueInv_def)
qed

lemma resumeCall2_inv:
  assumes "isProcessing st" "pending st = []"
  shows "queueInv (resumeCall2 item seg e r st)"
proof -
  obtain ok st1 where c: "(if jobType item = polish then polishSegment2 e seg r st
             else translateSegment2 e seg r st) = (ok, st1)" by force
  then have "st1 = snd (if jobType item = polish then polishSegment2 e seg r st
             else translateSegment2 e seg r st)" by simp
  then have f: "pending st1 = []" "isProcessing st1"
    using assms by (simp_all add: calls_frame split: if_splits)
  have "queueInv (st1\<lparr>isProcessing := False\<rparr>)" using f by (simp add: queueInv_def)
  then have "queueInv (finallyBlock2 e st1)"
    unfolding finallyBlock2_def by (rule processQueue2_inv)
  then show ?thesis
    unfolding resumeCall2_def c using f
    by (simp add: Let_def queueInv_def)
qed

lemma resume_inv:
  assumes "isProcessing st" "pending st = []"
  shows "queueInv (resume rv c r st)"
proof -
  have "queueInv (st\<lparr>isProcessing := False\<rparr>)" using assms by (simp add: queueInv_def)
  then have "queueInv (finallyBlock2 e st)" for e
    unfolding finallyBlock2_def by (rule processQueue2_inv)
  moreover have "queueInv (finallyBlock e st)" for e
    using assms by (simp add: finallyBlock_def queueInv_def)
  ultimately show ?thesis
    using assms by (simp add: resume_def resumeCall_inv resumeCall2_inv split: suspended.splits revision.splits)
qed

lemma runCallback_inv: "queueInv st \<Longrightarrow> queueInv (runCallback rv b cb st)"
  by (simp add: runCallback_def processQueue_inv processQueue2_inv connectToLive_def
        split: callback.splits revision.splits)

lemma removeAt_single: "length xs \<le> 1 \<Longrightarrow> i < length xs \<Longrightarrow> removeAt i xs = []"
  by (cases xs) (simp_all add: removeAt_def)

lemma step_inv: "queueInv st \<Longrightarrow> queueInv (step rv ev st)"
proof (cases ev)
  case Render
  assume "queueInv st"
  then have "queueInv (st\<lparr>statusRef := status st\<rparr>)" by simp
  then show ?thesis using Render
    by (simp add: step_def Let_def processQueue_inv processQueue2_inv split: revision.splits)
next
  case (Fire i b)
  assume "queueInv st"
  then show ?thesis using Fire by (simp add: step_def runCallback_inv)
next
  case (Settle i r)
  assume inv: "queueInv st"
  show ?thesis
  proof (cases "i < length (pending st) \<and> isCall (pending st ! i)")
    case True
    then have "removeAt i (pending st) = []" "isProcessing st"
      using inv by (auto simp: queueInv_def removeAt_single)
    then have "queueInv (resume rv (pending st ! i) r (st\<lparr>pending := removeAt i (pending st)\<rparr>))"
      by (intro resume_inv) simp_all
    then show ?thesis using Settle True by (simp add: step_def)
  next
    case False
    then show ?thesis using Settle inv by (auto simp add: step_def)
  qed
next
  case (Wake i)
  assume inv: "queueInv st"
  show ?thesis
  proof (cases "i < length (pending st) \<and> \<not> isCall (pending st ! i)")
    case True
    then have "removeAt i (pending st) = []" "isProcessing st"
      using inv by (auto simp: queueInv_def removeAt_single)
    then have "queueInv (resume rv (pending st ! i) Rejected (st\<lparr>pending := removeAt i (pending st)\<rparr>))"
      by (intro resume_inv) simp_all
    then show ?thesis using Wake True by (simp add: step_def)
  next
    case False
    then show ?thesis using Wake inv by (auto simp add: step_def)
  qed
qed (simp_all add: step_def onmessage_inv onmessage2_inv startRecording_def startRecording2_def
       pauseRecording_def pauseRecording2_def resumeRecording_def resumeRecording2_def
       stopRecording_def stopRecording2_def finalize_inv onopen_def onerror_def onerror2_def Let_def
       split: revision.splits)

lemma run_inv: "queueInv st \<Longrightarrow> queueInv (run rv evs st)"
  by (induction evs arbitrary: st) (simp_all add: step_inv)

lemma outstanding_le: "outstanding st \<le> length (pending st)"
  by (simp add: outstanding_def)

text \<open>
  C1. Single flight: whatever the interleaving of renders, messages, timer callbacks,
  settled calls, elapsed waits and user actions, at most one external refinement call is
  outstanding, and while one is outstanding the busy flag is set. The flag is checked before
  every drain attempt: with the flag set, \<open>processQueue\<close> does nothing. Both revisions.
\<close>

theorem single_flight:
  assumes "pending st = []" and "\<not> isProcessing st"
  shows "outstanding (run rv evs st) \<le> 1
    \<and> (0 < outstanding (run rv evs st) \<longrightarrow> isProcessing (run rv evs st))
    \<and> (isProcessing (run rv evs st) \<longrightarrow>
         processQueue e (run rv evs st) = run rv evs st
         \<and> processQueue2 e (run rv evs st) = run rv evs st)"
proof -
  have "queueInv st" using assms by (simp add: queueInv_def)
  then have "queueInv (run rv evs st)" by (rule run_inv)
  moreover have "outstanding (run rv evs st) \<le> length (pending (run rv evs st))"
    by (rule outstanding_le)
  ultimately show ?thesis
    by (cases "pending (run rv evs st)")
       (simp_all add: queueInv_def outstanding_def processQueue_busy processQueue2_busy)
qed

theorem single_flight_witness:
  "pending (initialApp 3500) = [] \<and> \<not> isProcessing (initialApp 3500)
   \<and> outstanding (run TypesTs demoEvents (initialApp 3500)) = 1
   \<and> isProcessing (run TypesTs demoEvents (initialApp 3500))
   \<and> processQueue (snapshot (initialApp 3500)) (run TypesTs demoEvents (initialApp 3500)) =
       run TypesTs demoEvents (initialApp 3500)"
proof -
  have a: "outstanding (run TypesTs demoEvents (initialApp 3500)) = 1"
    by code_simp
  show ?thesis
    using single_flight [of "initialApp 3500" TypesTs demoEvents "snapshot (initialApp 3500)"] a
    by (simp add: initialApp_def)
qed

lemma processQueue2_frame:
  "timers (processQueue2 e st) = timers st
   \<and> segments (processQueue2 e st) = segments st
   \<and> segmentsRef (processQueue2 e st) = segmentsRef st
   \<and> sessions (processQueue2 e st) = sessions st
   \<and> lastSegmentTime (processQueue2 e st) = lastSegmentTime st"
proof (induction e st rule: processQueue2.induct)
  case (1 e st)
  show ?case
  proof (cases "isProcessing st \<or> processingQueue st = []")
    case True
    then have "processQueue2 e st = st" by (subst processQueue2.simps) simp
    then show ?thesis by simp
  next
    case False
    let ?item = "hd (processingQueue st)"
    let ?st1 = "st\<lparr>processingQueue := tl (processingQueue st)\<rparr>"
    show ?thesis
    proof (cases "lookupSegment e ?item")
      case None
      then have "processQueue2 e st = processQueue2 e ?st1"
        using False by (subst processQueue2.simps) (simp add: Let_def)
      then show ?thesis
        using "1.IH"[OF False refl refl None] by simp
    next
      case (Some seg)
      show ?thesis
        using False Some by (subst processQueue2.simps, simp add: Let_def)+
    qed
  qed
qed

lemma processQueue_frame:
  "timers (processQueue e st) = timers st
   \<and> segments (processQueue e st) = segments st
   \<and> segmentsRef (processQueue e st) = segmentsRef st
   \<and> sessions (processQueue e st) = sessions st
   \<and> lastSegmentTime (processQueue e st) = lastSegmentTime st"
proof (induction e st rule: processQueue.induct)
  case (1 e st)
  show ?case
  proof (cases "isProcessing st \<or> processingQueue st = []")
    case True
    then have "processQueue e st = st" by (subst processQueue.simps) simp
    then show ?thesis by simp
  next
    case False
    let ?item = "hd (processingQueue st)"
    let ?st1 = "st\<lparr>processingQueue := tl (processingQueue st)\<rparr>"
    show ?thesis
    proof (cases "lookupSegment e ?item")
      case None
      then have "processQueue e st = processQueue e ?st1"
        using False by (subst processQueue.simps) (simp add: Let_def)
      then show ?thesis
        using "1.IH"[OF False refl refl None] by simp
    next
      case (Some seg)
      show ?thesis
        using False Some by (subst processQueue.simps, simp add: Let_def)+
    qed
  qed
qed

text \<open>
  C2. Retry policy of the queue worker, in both revisions. When the awaited call of a job
  is rejected and \<open>retryCount < 5\<close>, a timer with delay \<open>2 ^ retryCount * 2000\<close> ms is
  scheduled whose callback pushes the same job with \<open>retryCount + 1\<close> to the end of the
  queue; with \<open>retryCount \<ge> 5\<close> no such timer is scheduled and the job is gone. A call
  that resolves schedules no timer and pushes nothing. A rejected call changes no segment.
\<close>

theorem retry_policy:
  "(retryCount item < 5 \<longrightarrow>
      resumeCall item seg e Rejected st =
        st\<lparr>timers := timers st @
               [(2 ^ retryCount item * 2000,
                 PushRetry (item\<lparr>retryCount := retryCount item + 1\<rparr>) e),
                (1000, ProcessQueue e)],
            isProcessing := False\<rparr>
      \<and> resumeCall2 item seg e Rejected st =
        st\<lparr>baseCooldown := min 15000 (baseCooldown st + 2000),
            timers := timers st @
               [(2 ^ retryCount item * 2000,
                 PushRetry (item\<lparr>retryCount := retryCount item + 1\<rparr>) e)],
            pending := pending st @ [AwaitDelay 1000 e]\<rparr>)
   \<and> runCallback TypesTs b (PushRetry item' e) st =
        st\<lparr>processingQueue := processingQueue st @ [item']\<rparr>
   \<and> runCallback Part002 b (PushRetry item' e) st =
        processQueue2 e (st\<lparr>processingQueue := processingQueue st @ [item']\<rparr>)
   \<and> (5 \<le> retryCount item \<longrightarrow>
        resumeCall item seg e Rejected st =
          st\<lparr>isProcessing := False, timers := timers st @ [(1000, ProcessQueue e)]\<rparr>
        \<and> resumeCall2 item seg e Rejected st = processQueue2 e (st\<lparr>isProcessing := False\<rparr>)
        \<and> timers (resumeCall2 item seg e Rejected st) = timers st)
   \<and> timers (resumeCall item seg e (Resolved t) st) = timers st
   \<and> processingQueue (resumeCall item seg e (Resolved t) st) = processingQueue st
   \<and> timers (resumeCall2 item seg e (Resolved t) st) = timers st
   \<and> processingQueue (resumeCall2 item seg e (Resolved t) st) = processingQueue st
   \<and> segments (resumeCall item seg e Rejected st) = segments st
   \<and> sessions (resumeCall item seg e Rejected st) = sessions st
   \<and> segments (resumeCall2 item seg e Rejected st) = segments st
   \<and> segmentsRef (resumeCall2 item seg e Rejected st) = segmentsRef st
   \<and> sessions (resumeCall2 item seg e Rejected st) = sessions st"
  by (auto simp: resumeCall_def resumeCall2_def polishSegment_def translateSegment_def
        polishSegment2_def translateSegment2_def finallyBlock_def finallyBlock2_def
        runCallback_def Let_def processQueue2_frame)

theorem retry_policy_witness:
  "retryCount demoJob < 5
   \<and> timers (resumeCall demoJob demoSegment (snapshot (initialApp 3500)) Rejected (initialApp 3500)) =
       [(2000, PushRetry (demoJob\<lparr>retryCount := 1\<rparr>) (snapshot (initialApp 3500))),
        (1000, ProcessQueue (snapshot (initialApp 3500)))]
   \<and> 5 \<le> retryCount (demoJob\<lparr>retryCount := 5\<rparr>)
   \<and> timers (resumeCall (demoJob\<lparr>retryCount := 5\<rparr>) demoSegment (snapshot (initialApp 3500)) Rejected (initialApp 3500)) =
       [(1000, ProcessQueue (snapshot (initialApp 3500)))]"
  using retry_policy [of demoJob demoSegment "snapshot (initialApp 3500)" "initialApp 3500"]
        retry_policy [of "demoJob\<lparr>retryCount := 5\<rparr>" demoSegment "snapshot (initialApp 3500)" "initialApp 3500"]
  by (simp add: demoJob_def initialApp_def)

section \<open>Properties of the connection manager\<close>

text \<open>
  C4, as stated, fails: the handler increments the counter first and computes the backoff
  from the incremented value, so the first reconnect is scheduled after 2000 ms, not
  after \<open>min 15000 (2 ^ 0 * 1000) = 1000\<close> ms.
\<close>

theorem reconnect_delay_counterexample:
  "statusRef recordingApp = RECORDING \<and> connectionRetryCount recordingApp < 5
   \<and> timers (onerror recordingApp) \<noteq>
       timers recordingApp @
         [(min 15000 (2 ^ connectionRetryCount recordingApp * 1000), ConnectToLive)]"
  by (simp add: onerror_def recordingApp_def initialApp_def Let_def)

text \<open>
  C4, amended. In types.ts a transport error with the counter below 5 and a status other
  than Idle increments the counter and schedules a reconnect after
  \<open>min 15000 (2 ^ (retryCount + 1) * 1000)\<close> ms, \<open>retryCount\<close> being the counter before
  the increment; \<open>onopen\<close> resets the counter to zero; an error that arrives when the
  counter is 5 or more sets the status to Error, so from a counter of zero five
  consecutive errors leave the status alone and the sixth sets Error. In part 002 every
  transport error sets Error at once.
\<close>

theorem reconnect_policy:
  "(connectionRetryCount st < 5 \<and> statusRef st \<noteq> IDLE \<longrightarrow>
      onerror st =
        st\<lparr>connectionRetryCount := connectionRetryCount st + 1,
            timers := timers st @
              [(min 15000 (2 ^ (connectionRetryCount st + 1) * 1000), ConnectToLive)]\<rparr>)
   \<and> connectionRetryCount (onopen st) = 0
   \<and> (5 \<le> connectionRetryCount st \<longrightarrow> status (onerror st) = ERROR)
   \<and> (connectionRetryCount st = 0 \<and> statusRef st \<noteq> IDLE \<longrightarrow>
        status (run TypesTs (replicate 5 TransportError) st) = status st
        \<and> connectionRetryCount (run TypesTs (replicate 5 TransportError) st) = 5
        \<and> status (run TypesTs (replicate 6 TransportError) st) = ERROR)
   \<and> status (onerror2 st) = ERROR"
proof -
  have r5: "replicate 5 TransportError =
      [TransportError, TransportError, TransportError, TransportError, TransportError]"
    by code_simp
  have r6: "replicate 6 TransportError = TransportError # replicate 5 TransportError"
    by code_simp
  have errs: "connectionRetryCount st = 0 \<and> statusRef st \<noteq> IDLE \<longrightarrow>
        status (run TypesTs (replicate 5 TransportError) st) = status st
        \<and> connectionRetryCount (run TypesTs (replicate 5 TransportError) st) = 5
        \<and> status (run TypesTs (replicate 6 TransportError) st) = ERROR"
    unfolding r6 unfolding r5
    by (simp add: onerror_def Let_def step_def)
  show ?thesis
    using errs by (simp add: onerror_def onopen_def onerror2_def Let_def)
qed

theorem reconnect_policy_witness:
  "connectionRetryCount recordingApp = 0 \<and> statusRef recordingApp \<noteq> IDLE
   \<and> timers (onerror recordingApp) = [(2000, ConnectToLive)]
   \<and> connectionRetryCount (onerror recordingApp) = 1
   \<and> status (run TypesTs (replicate 5 TransportError) recordingApp) = RECORDING
   \<and> status (run TypesTs (replicate 6 TransportError) recordingApp) = ERROR
   \<and> 5 \<le> connectionRetryCount (recordingApp\<lparr>connectionRetryCount := 5\<rparr>)
   \<and> status (onerror (recordingApp\<lparr>connectionRetryCount := 5\<rparr>)) = ERROR"
  using reconnect_policy [of recordingApp]
        reconnect_policy [of "recordingApp\<lparr>connectionRetryCount := 5\<rparr>"]
  by (simp add: recordingApp_def initialApp_def)

section \<open>Properties of the segmenter\<close>

text \<open>
  C7, as stated, fails: a buffer that cleans to one character is not reset by
  \<open>finalizeCurrentSegment\<close>; the early return leaves it as it is.
\<close>

theorem discard_short_counterexample:
  "length (cleanText (ascii ''a'')) < 2
   \<and> transcriptionBuffer (finalizeCurrentSegment ''s1'' 3 False
        ((initialApp 3500)\<lparr>transcriptionBuffer := ascii ''a''\<rparr>)) \<noteq> []"
proof -
  have "cleanText (ascii ''a'') = ascii ''a''"
    by code_simp
  then show ?thesis
    by (simp add: finalizeCurrentSegment_def initialApp_def Let_def ascii_def)
qed

text \<open>
  C7, amended. When the cleaned buffer is shorter than two characters (types.ts), or
  empty (part 002, whose floor is one character), finalize does nothing at all: no
  segment, no job, \<open>lastSegmentTime\<close> as before, and the buffer kept as it is.
\<close>

theorem discard_short:
  "(length (cleanText (transcriptionBuffer st)) < 2 \<longrightarrow>
      finalizeCurrentSegment newId elapsed bilingual st = st)
   \<and> (cleanHallucinations (trim (transcriptionBuffer st)) = [] \<longrightarrow>
      finalizeCurrentSegment2 newId elapsed bilingual st = st)"
  by (auto simp: finalizeCurrentSegment_def finalizeCurrentSegment2_def Let_def)

theorem discard_short_witness:
  "length (cleanText (transcriptionBuffer ((initialApp 3500)\<lparr>transcriptionBuffer := ascii ''a''\<rparr>))) < 2
   \<and> finalizeCurrentSegment ''s1'' 3 True ((initialApp 3500)\<lparr>transcriptionBuffer := ascii ''a''\<rparr>) =
       (initialApp 3500)\<lparr>transcriptionBuffer := ascii ''a''\<rparr>
   \<and> cleanHallucinations (trim (transcriptionBuffer ((initialApp 2500)\<lparr>transcriptionBuffer := ascii '' ''\<rparr>))) = []
   \<and> finalizeCurrentSegment2 ''s1'' 3 True ((initialApp 2500)\<lparr>transcriptionBuffer := ascii '' ''\<rparr>) =
       (initialApp 2500)\<lparr>transcriptionBuffer := ascii '' ''\<rparr>"
proof -
  have a: "cleanText (ascii ''a'') = ascii ''a''"
    by code_simp
  have b: "cleanHallucinations (trim (ascii '' '')) = []"
    by code_simp
  show ?thesis
    using discard_short [of "(initialApp 3500)\<lparr>transcriptionBuffer := ascii ''a''\<rparr>" "''s1''" 3 True]
          discard_short [of "(initialApp 2500)\<lparr>transcriptionBuffer := ascii '' ''\<rparr>" "''s1''" 3 True]
          a b
    by (simp add: ascii_def)
qed

lemma chainedTo_map:
  assumes "\<And>s. startTime (f s) = startTime s" and "\<And>s. endTime (f s) = endTime s"
  shows "chainedTo t (map f ss) = chainedTo t ss"
  by (induction ss arbitrary: t) (simp_all add: assms)

lemma chainedTo_setText: "chainedTo t (rev (setText i x ss)) = chainedTo t (rev ss)"
proof -
  have "rev (setText i x ss) = map (\<lambda>s. if segId s = i then s\<lparr>segText := x\<rparr> else s) (rev ss)"
    by (simp add: setText_def rev_map)
  then show ?thesis by (simp add: chainedTo_map)
qed

lemma chainedTo_setTranslated: "chainedTo t (rev (setTranslated i x ss)) = chainedTo t (rev ss)"
proof -
  have "rev (setTranslated i x ss) =
      map (\<lambda>s. if segId s = i then s\<lparr>translatedText := Some x\<rparr> else s) (rev ss)"
    by (simp add: setTranslated_def rev_map)
  then show ?thesis by (simp add: chainedTo_map)
qed

lemma chainedTo_index:
  "chainedTo t (rev segs) \<Longrightarrow>
     (\<forall>i. Suc i < length segs \<longrightarrow> startTime (segs ! Suc i) = endTime (segs ! i))
     \<and> (\<forall>s \<in> set segs. startTime s < endTime s)"
proof (induction segs arbitrary: t rule: rev_induct)
  case Nil
  then show ?case by simp
next
  case (snoc x xs)
  then have x: "endTime x = t" "startTime x < endTime x" and rest: "chainedTo (startTime x) (rev xs)"
    by simp_all
  note ih = snoc.IH [OF rest]
  have adj: "startTime ((xs @ [x]) ! Suc i) = endTime ((xs @ [x]) ! i)"
    if "Suc i < length (xs @ [x])" for i
  proof (cases "Suc i < length xs")
    case True
    then show ?thesis using ih by (simp add: nth_append)
  next
    case False
    with that have i: "Suc i = length xs" by simp
    then have "xs \<noteq> []" by auto
    then have "chainedTo (startTime x) (last xs # rev (butlast xs))"
      using rest by (metis rev.simps(2) append_butlast_last_id rev_rev_ident rev_append rev_singleton_conv append_Cons append_Nil)
    then have "endTime (last xs) = startTime x" by simp
    moreover have "last xs = xs ! i"
    proof -
      have "length xs - 1 = i" using i by simp
      then show ?thesis using \<open>xs \<noteq> []\<close> by (simp add: last_conv_nth)
    qed
    ultimately show ?thesis using i by (simp add: nth_append)
  qed
  show ?case using adj ih x by auto
qed

lemma finalize2_timeline:
  "timelineInv st \<Longrightarrow> timelineInv (finalizeCurrentSegment2 i el b st)"
  by (auto simp: timelineInv_def finalizeCurrentSegment2_def Let_def max_def)

lemma timelineInv_upd [simp]:
  "timelineInv (st\<lparr>transcriptionBuffer := x1\<rparr>) = timelineInv st"
  "timelineInv (st\<lparr>currentTranscription := x2\<rparr>) = timelineInv st"
  "timelineInv (st\<lparr>processingQueue := x3\<rparr>) = timelineInv st"
  "timelineInv (st\<lparr>timers := x4\<rparr>) = timelineInv st"
  "timelineInv (st\<lparr>status := x5\<rparr>) = timelineInv st"
  "timelineInv (st\<lparr>statusRef := x6\<rparr>) = timelineInv st"
  "timelineInv (st\<lparr>segments := x7\<rparr>) = timelineInv st"
  "timelineInv (st\<lparr>pending := x8\<rparr>) = timelineInv st"
  "timelineInv (st\<lparr>sessions := x9\<rparr>) = timelineInv st"
  "timelineInv (st\<lparr>viewingSessionId := x10\<rparr>) = timelineInv st"
  "timelineInv (st\<lparr>isBilingual := x11\<rparr>) = timelineInv st"
  "timelineInv (st\<lparr>elapsedTime := x12\<rparr>) = timelineInv st"
  "timelineInv (st\<lparr>isProcessing := x13\<rparr>) = timelineInv st"
  "timelineInv (st\<lparr>connectionRetryCount := x14\<rparr>) = timelineInv st"
  "timelineInv (st\<lparr>baseCooldown := x15\<rparr>) = timelineInv st"
  "timelineInv (st\<lparr>segmentsRef := []\<rparr>)"
  "timelineInv (st\<lparr>segmentsRef := [], elapsedTime := x16, lastSegmentTime := x17\<rparr>)"
  by (simp_all add: timelineInv_def)

lemma processQueue2_timeline: "timelineInv (processQueue2 e st) = timelineInv st"
  by (simp add: timelineInv_def processQueue2_frame)

lemma onmessage2_timeline: "timelineInv st \<Longrightarrow> timelineInv (onmessage2 m i1 i2 el b st)"
  by (simp add: onmessage2_def Let_def finalize2_timeline split: option.splits)

lemma calls2_timeline:
  "timelineInv st \<Longrightarrow> timelineInv (snd (polishSegment2 e seg r st))"
  "timelineInv st \<Longrightarrow> timelineInv (snd (translateSegment2 e seg r st))"
  by (simp_all add: polishSegment2_def translateSegment2_def Let_def timelineInv_def
        chainedTo_setText chainedTo_setTranslated split: reply.splits)

lemma resumeCall2_timeline:
  assumes "timelineInv st"
  shows "timelineInv (resumeCall2 item seg e r st)"
proof -
  obtain ok st1 where c: "(if jobType item = polish then polishSegment2 e seg r st
             else translateSegment2 e seg r st) = (ok, st1)" by force
  then have "st1 = snd (if jobType item = polish then polishSegment2 e seg r st
             else translateSegment2 e seg r st)" by simp
  then have "timelineInv st1"
    using assms by (simp add: calls2_timeline split: if_splits)
  then show ?thesis
    unfolding resumeCall2_def c
    by (simp add: Let_def finallyBlock2_def processQueue2_timeline)
qed

lemma step2_timeline: "timelineInv st \<Longrightarrow> timelineInv (step Part002 ev st)"
  by (cases ev)
     (simp_all add: step_def Let_def processQueue2_timeline onmessage2_timeline runCallback_def
        connectToLive_def resume_def resumeCall2_timeline finallyBlock2_def
        startRecording2_def pauseRecording2_def resumeRecording2_def stopRecording2_def
        finalize2_timeline onerror2_def
        split: callback.splits suspended.splits)

lemma run2_timeline: "timelineInv st \<Longrightarrow> timelineInv (run Part002 evs st)"
  by (induction evs arbitrary: st) (simp_all add: step2_timeline)

text \<open>
  The timeline invariant holds in part 002, whose finalize clamps \<open>endTime\<close> to at least
  \<open>startTime + 1\<close>: after any sequence of events that follows the start of a recording,
  each segment starts where its predecessor ends and ends after it starts.
\<close>

lemma timeline_part002:
  "(\<forall>i. Suc i < length (segmentsRef (run Part002 evs (startRecording2 mic st))) \<longrightarrow>
        startTime (segmentsRef (run Part002 evs (startRecording2 mic st)) ! Suc i) =
        endTime (segmentsRef (run Part002 evs (startRecording2 mic st)) ! i))
   \<and> (\<forall>s \<in> set (segmentsRef (run Part002 evs (startRecording2 mic st))).
        startTime s < endTime s)"
proof -
  have "timelineInv (startRecording2 mic st)"
    by (simp add: startRecording2_def timelineInv_def Let_def)
  then have "timelineInv (run Part002 evs (startRecording2 mic st))"
    by (rule run2_timeline)
  then show ?thesis
    unfolding timelineInv_def by (rule chainedTo_index)
qed

text \<open>
  C3 fails on types.ts: its \<open>finalizeCurrentSegment\<close> takes \<open>endTime\<close> from \<open>elapsedTime\<close>
  without the clamp. A finalize in the first second of a recording (\<open>elapsedTime = 0\<close>,
  \<open>lastSegmentTime = 0\<close>) produces a segment with \<open>endTime = startTime\<close>.
\<close>

theorem finalize_zero_length_segment:
  "segmentsRef (finalizeCurrentSegment ''s1'' 0 False
      ((startRecording True (initialApp 3500))\<lparr>transcriptionBuffer := ascii ''hello world''\<rparr>)) =
   [\<lparr>segId = ''s1'', startTime = 0, endTime = 0, segText = ascii ''hello world'',
     translatedText = None, isFinal = True\<rparr>]"
  by code_simp

section \<open>Properties of the recording lifecycle\<close>





text \<open>
  An invocation of \<open>processQueue\<close> that was suspended before the stop keeps the lists and
  the \<open>viewingSessionId\<close> of its own render, and so does the drain attempt that its
  \<open>finally\<close> block re-arms. In the run \<open>staleReplay\<close> both polish calls resolve after the
  stop: the queue is drained, and the archived texts are as they were.
\<close>

lemma stale_worker_after_stop:
  "processingQueue (run TypesTs staleReplay (initialApp 3500)) = []
   \<and> segments (run TypesTs staleReplay (initialApp 3500)) = []
   \<and> map (\<lambda>session. map segText (sessSegments session))
        (sessions (run TypesTs staleReplay (initialApp 3500))) =
       [[ascii ''hello world'', ascii ''second one'']]"
  by code_simp

section \<open>Properties of polish and translate\<close>

lemma trimmedOr_nonempty: "fallback \<noteq> [] \<Longrightarrow> trimmedOr t fallback \<noteq> []"
  by (simp add: trimmedOr_def split: option.splits)

lemma trimmedOr_blank: "blank t \<Longrightarrow> trimmedOr t fallback = fallback"
  by (simp add: trimmedOr_def blank_def split: option.splits)

lemma setText_nonempty:
  "x \<noteq> [] \<Longrightarrow> textsNonEmpty segs \<Longrightarrow> textsNonEmpty (setText i x segs)"
  by (induction segs) (simp_all add: textsNonEmpty_def setText_def)

lemma setText_same:
  "\<forall>s \<in> set segs. segId s = i \<longrightarrow> segText s = x \<Longrightarrow> setText i x segs = segs"
  by (induction segs) (simp_all add: setText_def)

lemma setText_same_all:
  "list_all (\<lambda>s. segId s \<noteq> i \<or> segText s = x) segs \<Longrightarrow> setText i x segs = segs"
  by (induction segs) (auto simp: setText_def)

lemma inSession_nonempty:
  "x \<noteq> [] \<Longrightarrow> list_all (\<lambda>session. textsNonEmpty (sessSegments session)) ss \<Longrightarrow>
     list_all (\<lambda>session. textsNonEmpty (sessSegments session)) (inSession v (setText i x) ss)"
  by (cases "truthy v") (auto simp: inSession_def list_all_iff setText_nonempty)

lemma inSession_same:
  "list_all (\<lambda>session. list_all (\<lambda>s. segId s \<noteq> i \<or> segText s = x) (sessSegments session)) ss \<Longrightarrow>
     inSession v (setText i x) ss = ss"
proof (cases "truthy v")
  case True
  assume a: "list_all (\<lambda>session. list_all (\<lambda>s. segId s \<noteq> i \<or> segText s = x) (sessSegments session)) ss"
  have "map (\<lambda>session. if Some (sessId session) = v
                           then session\<lparr>sessSegments := setText i x (sessSegments session)\<rparr>
                           else session) ss = ss"
    using a by (intro map_idI) (simp add: list_all_iff setText_same_all)
  then show ?thesis using True by (simp add: inSession_def)
next
  case False
  then show ?thesis by (simp add: inSession_def)
qed

text \<open>
  C10. A settled polish call never leaves a segment with an empty text. The text it
  writes is the trimmed reply or, when the reply is blank (no text, or white space only),
  the segment's own text, so it is non-empty whenever the segment's text was; it is
  written to the segments with the target's id in the live list and in the viewed session
  (and in the ref, in part 002), and all three stores keep non-empty texts whatever the
  reply. A blank reply leaves every store as it was. Translate has no such guard: a blank
  reply stores the empty string as the translation. Both revisions.
\<close>

theorem polish_keeps_text:
  "(segText seg \<noteq> [] \<longrightarrow> trimmedOr t (segText seg) \<noteq> [])
   \<and> polishSegment e seg (Resolved t) st =
       (True, st\<lparr>segments := setText (segId seg) (trimmedOr t (segText seg)) (segments st),
                 sessions := inSession (envViewingSessionId e)
                               (setText (segId seg) (trimmedOr t (segText seg))) (sessions st)\<rparr>)
   \<and> polishSegment2 e seg (Resolved t) st =
       (if trimmedOr t (segText seg) = segText seg then (True, st)
        else (True, st\<lparr>segments := setText (segId seg) (trimmedOr t (segText seg)) (segments st),
                       segmentsRef := setText (segId seg) (trimmedOr t (segText seg)) (segmentsRef st),
                       sessions := inSession (envViewingSessionId e)
                                     (setText (segId seg) (trimmedOr t (segText seg))) (sessions st)\<rparr>))
   \<and> (segText seg \<noteq> [] \<and> storeNonEmpty st \<longrightarrow>
        storeNonEmpty (snd (polishSegment e seg r st))
        \<and> storeNonEmpty (snd (polishSegment2 e seg r st)))
   \<and> (blank t \<longrightarrow> trimmedOr t (segText seg) = segText seg
        \<and> polishSegment2 e seg (Resolved t) st = (True, st))
   \<and> (blank t \<and> targetText (segId seg) (segText seg) st \<longrightarrow>
        polishSegment e seg (Resolved t) st = (True, st))
   \<and> (blank t \<longrightarrow>
        translateSegment e seg (Resolved t) st =
          (True, st\<lparr>segments := setTranslated (segId seg) [] (segments st),
                    sessions := inSession (envViewingSessionId e)
                                  (setTranslated (segId seg) []) (sessions st)\<rparr>)
        \<and> translateSegment2 e seg (Resolved t) st =
          (True, st\<lparr>segments := setTranslated (segId seg) [] (segments st),
                    segmentsRef := setTranslated (segId seg) [] (segmentsRef st),
                    sessions := inSession (envViewingSessionId e)
                                  (setTranslated (segId seg) []) (sessions st)\<rparr>))"
proof -
  have a: "segText seg \<noteq> [] \<longrightarrow> trimmedOr t (segText seg) \<noteq> []"
    by (simp add: trimmedOr_nonempty)
  have b: "polishSegment e seg (Resolved t) st =
       (True, st\<lparr>segments := setText (segId seg) (trimmedOr t (segText seg)) (segments st),
                 sessions := inSession (envViewingSessionId e)
                               (setText (segId seg) (trimmedOr t (segText seg))) (sessions st)\<rparr>)"
    by (simp add: polishSegment_def Let_def)
  have c: "polishSegment2 e seg (Resolved t) st =
       (if trimmedOr t (segText seg) = segText seg then (True, st)
        else (True, st\<lparr>segments := setText (segId seg) (trimmedOr t (segText seg)) (segments st),
                       segmentsRef := setText (segId seg) (trimmedOr t (segText seg)) (segmentsRef st),
                       sessions := inSession (envViewingSessionId e)
                                     (setText (segId seg) (trimmedOr t (segText seg))) (sessions st)\<rparr>))"
    by (simp add: polishSegment2_def Let_def)
  have d: "segText seg \<noteq> [] \<and> storeNonEmpty st \<longrightarrow>
        storeNonEmpty (snd (polishSegment e seg r st))
        \<and> storeNonEmpty (snd (polishSegment2 e seg r st))"
    by (cases r)
       (auto simp: polishSegment_def polishSegment2_def Let_def storeNonEmpty_def
          trimmedOr_nonempty setText_nonempty inSession_nonempty)
  have f: "blank t \<longrightarrow> trimmedOr t (segText seg) = segText seg
        \<and> polishSegment2 e seg (Resolved t) st = (True, st)"
    by (simp add: trimmedOr_blank polishSegment2_def Let_def)
  have g: "blank t \<and> targetText (segId seg) (segText seg) st \<longrightarrow>
        polishSegment e seg (Resolved t) st = (True, st)"
    by (simp add: b trimmedOr_blank targetText_def setText_same_all inSession_same)
  have h: "blank t \<longrightarrow>
        translateSegment e seg (Resolved t) st =
          (True, st\<lparr>segments := setTranslated (segId seg) [] (segments st),
                    sessions := inSession (envViewingSessionId e)
                                  (setTranslated (segId seg) []) (sessions st)\<rparr>)
        \<and> translateSegment2 e seg (Resolved t) st =
          (True, st\<lparr>segments := setTranslated (segId seg) [] (segments st),
                    segmentsRef := setTranslated (segId seg) [] (segmentsRef st),
                    sessions := inSession (envViewingSessionId e)
                                  (setTranslated (segId seg) []) (sessions st)\<rparr>)"
    by (simp add: translateSegment_def translateSegment2_def Let_def trimmedOr_blank)
  show ?thesis using a b c d f g h by blast
qed

theorem polish_keeps_text_witness:
  "segText demoSegment \<noteq> [] \<and> storeNonEmpty archivedApp
   \<and> blank (Some (ascii '' ''))
   \<and> targetText (segId demoSegment) (segText demoSegment) archivedApp
   \<and> envViewingSessionId (snapshot archivedApp) = Some ''r1''
   \<and> map sessSegments (sessions (snd (polishSegment (snapshot archivedApp) demoSegment
          (Resolved (Some (ascii ''Hello.''))) archivedApp))) =
        [[demoSegment\<lparr>segText := ascii ''Hello.''\<rparr>]]
   \<and> storeNonEmpty (snd (polishSegment (snapshot archivedApp) demoSegment
          (Resolved (Some (ascii ''Hello.''))) archivedApp))
   \<and> storeNonEmpty (snd (polishSegment2 (snapshot archivedApp) demoSegment
          (Resolved (Some (ascii ''Hello.''))) archivedApp))
   \<and> polishSegment (snapshot archivedApp) demoSegment (Resolved (Some (ascii '' ''))) archivedApp =
        (True, archivedApp)
   \<and> polishSegment2 (snapshot archivedApp) demoSegment (Resolved (Some (ascii '' ''))) archivedApp =
        (True, archivedApp)
   \<and> map sessSegments (sessions (snd (translateSegment (snapshot archivedApp) demoSegment
          (Resolved (Some (ascii '' ''))) archivedApp))) =
        [[demoSegment\<lparr>translatedText := Some []\<rparr>]]"
proof -
  have h: "segText demoSegment \<noteq> []" "storeNonEmpty archivedApp"
    "blank (Some (ascii '' ''))"
    "targetText (segId demoSegment) (segText demoSegment) archivedApp"
    "envViewingSessionId (snapshot archivedApp) = Some ''r1''"
    by code_simp+
  have v: "map sessSegments (sessions (snd (polishSegment (snapshot archivedApp) demoSegment
          (Resolved (Some (ascii ''Hello.''))) archivedApp))) =
        [[demoSegment\<lparr>segText := ascii ''Hello.''\<rparr>]]"
    "map sessSegments (sessions (snd (translateSegment (snapshot archivedApp) demoSegment
          (Resolved (Some (ascii '' ''))) archivedApp))) =
        [[demoSegment\<lparr>translatedText := Some []\<rparr>]]"
    by code_simp+
  show ?thesis
    using polish_keeps_text [of demoSegment "Some (ascii '' '')" "snapshot archivedApp" archivedApp
            "Resolved (Some (ascii ''Hello.''))"] h v
    by blast
qed

section \<open>Properties of the text normalizer\<close>

subsection \<open>The run stage\<close>

lemma noRun_replaceRuns_id: "noRun k s \<Longrightarrow> replaceRuns k s = s"
  by (induction s) auto

lemma takeWhile_replaceRuns_other:
  "s = [] \<or> hd s \<noteq> a \<Longrightarrow> takeWhile (\<lambda>d. d = a) (replaceRuns k s) = []"
  by (cases s) auto

lemma dropWhile_hd: "dropWhile P cs = [] \<or> \<not> P (hd (dropWhile P cs))"
  by (induction cs) auto

lemma replaceRuns_hd: "replaceRuns k s = [] \<longleftrightarrow> s = []"
  by (cases s) simp_all

lemma replaceRuns_hd_eq: "s \<noteq> [] \<Longrightarrow> hd (replaceRuns k s) = hd s"
  by (cases s) simp_all

lemma takeWhile_replaceRuns_le:
  "length (takeWhile (\<lambda>d. d = c) (replaceRuns k s)) \<le> length (takeWhile (\<lambda>d. d = c) s)"
proof (induction k s rule: replaceRuns.induct)
  case (1 k)
  show ?case by simp
next
  case (2 k a cs)
  show ?case
  proof (cases "dot a \<and> k \<le> length (takeWhile (\<lambda>d. d = a) cs)")
    case True
    let ?rest = "dropWhile (\<lambda>d. d = a) cs"
    have "takeWhile (\<lambda>d. d = a) (replaceRuns k ?rest) = []"
      using dropWhile_hd [of "\<lambda>d. d = a" cs] by (intro takeWhile_replaceRuns_other) auto
    with True show ?thesis by (cases "a = c") auto
  next
    case False
    with 2 show ?thesis by auto
  qed
qed

lemma noRun_replaceRuns: "0 < k \<Longrightarrow> noRun k (replaceRuns k s)"
proof (induction k s rule: replaceRuns.induct)
  case (1 k)
  show ?case by simp
next
  case (2 k a cs)
  show ?case
  proof (cases "dot a \<and> k \<le> length (takeWhile (\<lambda>d. d = a) cs)")
    case True
    let ?rest = "dropWhile (\<lambda>d. d = a) cs"
    have "takeWhile (\<lambda>d. d = a) (replaceRuns k ?rest) = []"
      using dropWhile_hd [of "\<lambda>d. d = a" cs] by (intro takeWhile_replaceRuns_other) auto
    with True 2 show ?thesis by simp
  next
    case False
    have "length (takeWhile (\<lambda>d. d = a) (replaceRuns k cs)) \<le> length (takeWhile (\<lambda>d. d = a) cs)"
      by (rule takeWhile_replaceRuns_le)
    with False 2 show ?thesis by auto
  qed
qed

lemma replaceRuns_idem: "0 < k \<Longrightarrow> replaceRuns k (replaceRuns k s) = replaceRuns k s"
  by (simp add: noRun_replaceRuns noRun_replaceRuns_id)

lemma replaceRuns_replicate:
  assumes "dot c" and "k < n"
  shows "replaceRuns k (replicate n c) = [c]"
proof -
  obtain m where n: "n = Suc m" and m: "k \<le> m"
    using assms(2) by (cases n) auto
  have "takeWhile (\<lambda>d. d = c) (replicate m c) = replicate m c"
    by (induction m) simp_all
  moreover have "dropWhile (\<lambda>d. d = c) (replicate m c) = []"
    by (induction m) simp_all
  ultimately show ?thesis using assms(1) m unfolding n by simp
qed

lemma noRun_append_left: "noRun k (xs @ ys) \<Longrightarrow> noRun k xs"
proof (induction xs)
  case Nil
  show ?case by simp
next
  case (Cons a xs)
  have "length (takeWhile (\<lambda>d. d = a) xs) \<le> length (takeWhile (\<lambda>d. d = a) (xs @ ys))"
    by (induction xs) simp_all
  with Cons show ?case by auto
qed

lemma noRun_append_right: "noRun k (xs @ ys) \<Longrightarrow> noRun k ys"
  by (induction xs) simp_all

lemma noRun_drop: "noRun k s \<Longrightarrow> noRun k (drop n s)"
  by (metis append_take_drop_id noRun_append_right)

lemma noRun_take: "noRun k s \<Longrightarrow> noRun k (take n s)"
  by (metis append_take_drop_id noRun_append_left)

lemma noRun_dropWhile: "noRun k s \<Longrightarrow> noRun k (dropWhile P s)"
  by (metis takeWhile_dropWhile_id noRun_append_right)

lemma rev_dropWhile_rev: "\<exists>ys. t = rev (dropWhile P (rev t)) @ ys"
proof -
  have "rev t = takeWhile P (rev t) @ dropWhile P (rev t)"
    by simp
  then have "rev (rev t) = rev (takeWhile P (rev t) @ dropWhile P (rev t))"
    by simp
  then have "t = rev (dropWhile P (rev t)) @ rev (takeWhile P (rev t))"
    by (simp only: rev_rev_ident rev_append)
  then show ?thesis ..
qed

lemma trim_decomp: "\<exists>xs ys. s = xs @ trim s @ ys"
proof -
  obtain ys where "dropWhile isWhiteSpace s = trim s @ ys"
    unfolding trim_def using rev_dropWhile_rev by blast
  moreover have "s = takeWhile isWhiteSpace s @ dropWhile isWhiteSpace s"
    by simp
  ultimately show ?thesis by metis
qed

lemma noRun_trim: "noRun k s \<Longrightarrow> noRun k (trim s)"
  using trim_decomp [of s] by (metis noRun_append_left noRun_append_right)

subsection \<open>The phrase stage\<close>

lemma countCopies_Nil: "countCopies x [] = 0"
  by (subst countCopies.simps) auto

lemma countCopies_len: "countCopies x t * length x \<le> length t"
proof (induction x t rule: countCopies.induct)
  case (1 x s)
  show ?case
  proof (cases "x \<noteq> [] \<and> take (length x) s = x")
    case True
    then have "length (take (length x) s) = length x"
      by simp
    then have l: "length x \<le> length s"
      by simp
    have "countCopies x s = Suc (countCopies x (drop (length x) s))"
      using True by (subst countCopies.simps) simp
    moreover have "countCopies x (drop (length x) s) * length x \<le> length s - length x"
      using "1.IH" [OF True] by simp
    ultimately show ?thesis using l by simp
  next
    case False
    then have "countCopies x s = 0" by (subst countCopies.simps) auto
    then show ?thesis by simp
  qed
qed

lemma countCopies_take:
  "take (countCopies x t * length x) t = concat (replicate (countCopies x t) x)"
proof (induction x t rule: countCopies.induct)
  case (1 x s)
  show ?case
  proof (cases "x \<noteq> [] \<and> take (length x) s = x")
    case True
    have c: "countCopies x s = Suc (countCopies x (drop (length x) s))"
      using True by (subst countCopies.simps) simp
    let ?j = "countCopies x (drop (length x) s)"
    have "take (Suc ?j * length x) s = take (length x) s @ take (?j * length x) (drop (length x) s)"
      by (simp add: take_add)
    also have "\<dots> = x @ concat (replicate ?j x)"
      using True "1.IH" [OF True] by simp
    finally show ?thesis unfolding c by simp
  next
    case False
    then have "countCopies x s = 0" by (subst countCopies.simps) auto
    then show ?thesis by simp
  qed
qed

lemma tryPhrase_Some:
  "tryPhrase lo l s = Some (m, n) \<Longrightarrow>
     0 < m \<and> m \<le> l \<and> lo \<le> m \<and> 2 \<le> countCopies (take m s) (drop m s)
     \<and> n = m * Suc (countCopies (take m s) (drop m s))"
  by (induction l) (auto split: if_splits)

lemma tryPhrase_bounds:
  assumes "tryPhrase lo l s = Some (m, n)"
  shows "0 < m" and "m < n" and "n \<le> length s"
    and "take n s = concat (replicate (Suc (countCopies (take m s) (drop m s))) (take m s))"
proof -
  let ?x = "take m s" and ?j = "countCopies (take m s) (drop m s)"
  from tryPhrase_Some [OF assms]
  have m: "0 < m" and j: "2 \<le> ?j" and n: "n = m * Suc ?j" by simp_all
  have "?x \<noteq> [] \<and> take (length ?x) (drop m s) = ?x"
  proof (rule ccontr)
    assume "\<not> ?thesis"
    then have "?j = 0" by (subst countCopies.simps) auto
    with j show False by simp
  qed
  then have "drop m s \<noteq> []" by auto
  then have ms: "m \<le> length s" by simp
  then have lx: "length ?x = m" by simp
  have "?j * m \<le> length s - m"
    using countCopies_len [of ?x "drop m s"] lx by simp
  then show "n \<le> length s" using n ms by (simp add: algebra_simps)
  show "0 < m" by (rule m)
  show "m < n" using n m j by (cases ?j) simp_all
  have "take n s = take m s @ take (?j * m) (drop m s)"
    unfolding n by (simp add: take_add algebra_simps)
  also have "take (?j * m) (drop m s) = concat (replicate ?j ?x)"
    using countCopies_take [of ?x "drop m s"] lx by simp
  finally show "take n s = concat (replicate (Suc ?j) ?x)" by simp
qed

declare replacePhrases.simps [simp del]

lemma replacePhrases_Nil [simp]: "replacePhrases lo [] = []"
  by (simp add: replacePhrases.simps)

lemma replacePhrases_None:
  "tryPhrase lo (length (takeWhile dot (c # cs))) (c # cs) = None \<Longrightarrow>
     replacePhrases lo (c # cs) = c # replacePhrases lo cs"
  by (simp add: replacePhrases.simps del: takeWhile.simps)

lemma replacePhrases_Some:
  "tryPhrase lo (length (takeWhile dot (c # cs))) (c # cs) = Some (m, n) \<Longrightarrow>
     replacePhrases lo (c # cs) = take m (c # cs) @ replacePhrases lo (drop n (c # cs))"
  by (simp add: replacePhrases.simps del: takeWhile.simps)

lemma length_replacePhrases: "length (replacePhrases lo s) \<le> length s"
proof (induction lo s rule: replacePhrases.induct)
  case (1 lo)
  show ?case by simp
next
  case (2 lo c cs)
  show ?case
  proof (cases "tryPhrase lo (length (takeWhile dot (c # cs))) (c # cs)")
    case None
    then show ?thesis
      using "2.IH"(1) [OF None] by (simp add: replacePhrases_None del: takeWhile.simps)
  next
    case (Some p)
    obtain m n where p: "p = (m, n)" by (cases p)
    note b = tryPhrase_bounds [OF Some [unfolded p]]
    have "length (replacePhrases lo (drop n (c # cs))) \<le> length (c # cs) - n"
      using "2.IH"(2) [OF Some p [symmetric]] by simp
    then show ?thesis
      using b(1-3) by (simp add: replacePhrases_Some [OF Some [unfolded p]] del: takeWhile.simps)
  qed
qed

lemma replacePhrases_shorter:
  assumes "tryPhrase lo (length (takeWhile dot (c # cs))) (c # cs) = Some (m, n)"
  shows "length (replacePhrases lo (c # cs)) < length (c # cs)"
proof -
  note b = tryPhrase_bounds [OF assms]
  have "length (replacePhrases lo (drop n (c # cs))) \<le> length (c # cs) - n"
    using length_replacePhrases [of lo "drop n (c # cs)"] by simp
  then show ?thesis
    using b(1-3) by (simp add: replacePhrases_Some [OF assms] del: takeWhile.simps)
qed

lemma replacePhrases_fixed: "replacePhrases lo s = s \<longleftrightarrow> noPhrase lo s"
proof (induction s)
  case Nil
  show ?case by simp
next
  case (Cons c cs)
  show ?case
  proof (cases "tryPhrase lo (length (takeWhile dot (c # cs))) (c # cs)")
    case None
    then show ?thesis
      using Cons by (simp add: replacePhrases_None del: takeWhile.simps)
  next
    case (Some p)
    obtain m n where p: "p = (m, n)" by (cases p)
    have "length (replacePhrases lo (c # cs)) < length (c # cs)"
      using Some [unfolded p] by (rule replacePhrases_shorter)
    then have "replacePhrases lo (c # cs) \<noteq> c # cs" by auto
    then show ?thesis using Some by (simp del: takeWhile.simps)
  qed
qed

lemma length_replacePhrases_eq:
  "length (replacePhrases lo s) = length s \<Longrightarrow> replacePhrases lo s = s"
proof (induction s)
  case Nil
  show ?case by simp
next
  case (Cons c cs)
  show ?case
  proof (cases "tryPhrase lo (length (takeWhile dot (c # cs))) (c # cs)")
    case None
    then show ?thesis
      using Cons by (simp add: replacePhrases_None del: takeWhile.simps)
  next
    case (Some p)
    obtain m n where p: "p = (m, n)" by (cases p)
    have "length (replacePhrases lo (c # cs)) < length (c # cs)"
      using Some [unfolded p] by (rule replacePhrases_shorter)
    with Cons.prems show ?thesis by simp
  qed
qed

lemma concat_replicate_snoc: "concat (replicate (Suc j) x) = concat (replicate j x) @ x"
  by (induction j) simp_all

lemma takeWhile_append_mono:
  "length (takeWhile P ys) \<le> length (takeWhile P zs) \<Longrightarrow>
     length (takeWhile P (xs @ ys)) \<le> length (takeWhile P (xs @ zs))"
  by (induction xs) simp_all

lemma takeWhile_replacePhrases_le:
  "length (takeWhile (\<lambda>d. d = c) (replacePhrases lo s)) \<le> length (takeWhile (\<lambda>d. d = c) s)"
proof (induction lo s rule: replacePhrases.induct)
  case (1 lo)
  show ?case by simp
next
  case (2 lo a cs)
  show ?case
  proof (cases "tryPhrase lo (length (takeWhile dot (a # cs))) (a # cs)")
    case None
    show ?thesis
      using "2.IH"(1) [OF None] by (simp add: replacePhrases_None [OF None])
  next
    case (Some p)
    obtain m n where p: "p = (m, n)" by (cases p)
    note some = Some [unfolded p]
    note b = tryPhrase_bounds [OF some]
    let ?s = "a # cs"
    let ?x = "take m ?s" and ?rest = "drop n ?s"
    let ?P = "\<lambda>d. d = c"
    have ih: "length (takeWhile ?P (replacePhrases lo ?rest)) \<le> length (takeWhile ?P ?rest)"
      using "2.IH"(2) [OF Some p [symmetric]] .
    have out: "replacePhrases lo ?s = ?x @ replacePhrases lo ?rest"
      by (rule replacePhrases_Some [OF some])
    have s1: "?s = ?x @ drop m ?s" by simp
    have s2: "?s = take n ?s @ ?rest" by simp
    show ?thesis
    proof (cases "\<forall>d \<in> set ?x. d = c")
      case True
      then have "\<forall>d \<in> set (take n ?s). d = c"
        unfolding b(4) by auto
      then have "takeWhile ?P (take n ?s @ ?rest) = take n ?s @ takeWhile ?P ?rest"
        by (intro takeWhile_append2) simp
      then have "length (takeWhile ?P ?s) = n + length (takeWhile ?P ?rest)"
        using b(3) by (simp only: append_take_drop_id length_append length_take min_absorb2)
      moreover have "takeWhile ?P (?x @ replacePhrases lo ?rest) =
          ?x @ takeWhile ?P (replacePhrases lo ?rest)"
        using True by (intro takeWhile_append2) simp
      then have "length (takeWhile ?P (replacePhrases lo ?s)) \<le> m + length (takeWhile ?P ?rest)"
        unfolding out using ih by simp
      ultimately show ?thesis using b(2) by simp
    next
      case False
      then obtain d where d: "d \<in> set ?x" "\<not> ?P d" by blast
      have "takeWhile ?P (?x @ replacePhrases lo ?rest) = takeWhile ?P ?x"
        using d by (rule takeWhile_append1)
      moreover have "takeWhile ?P (?x @ drop m ?s) = takeWhile ?P ?x"
        using d by (rule takeWhile_append1)
      ultimately show ?thesis unfolding out by (simp only: append_take_drop_id)
    qed
  qed
qed

lemma noRun_splice:
  assumes "\<And>c. length (takeWhile (\<lambda>d. d = c) ys) \<le> length (takeWhile (\<lambda>d. d = c) zs)"
  shows "noRun k (xs @ zs) \<Longrightarrow> noRun k ys \<Longrightarrow> noRun k (xs @ ys)"
proof (induction xs)
  case Nil
  then show ?case by simp
next
  case (Cons x xs)
  have "length (takeWhile (\<lambda>d. d = x) (xs @ ys)) \<le> length (takeWhile (\<lambda>d. d = x) (xs @ zs))"
    by (rule takeWhile_append_mono) (rule assms)
  with Cons show ?case by auto
qed

lemma noRun_replacePhrases: "noRun k s \<Longrightarrow> noRun k (replacePhrases lo s)"
proof (induction lo s rule: replacePhrases.induct)
  case (1 lo)
  show ?case by simp
next
  case (2 lo a cs)
  show ?case
  proof (cases "tryPhrase lo (length (takeWhile dot (a # cs))) (a # cs)")
    case None
    have "length (takeWhile (\<lambda>d. d = a) (replacePhrases lo cs)) \<le> length (takeWhile (\<lambda>d. d = a) cs)"
      by (rule takeWhile_replacePhrases_le)
    then show ?thesis
      using "2.IH"(1) [OF None] "2.prems" by (auto simp: replacePhrases_None [OF None])
  next
    case (Some p)
    obtain m n where p: "p = (m, n)" by (cases p)
    note some = Some [unfolded p]
    note b = tryPhrase_bounds [OF some]
    let ?s = "a # cs"
    let ?x = "take m ?s" and ?rest = "drop n ?s"
    let ?j = "countCopies (take m ?s) (drop m ?s)"
    have lx: "length ?x = m" using b(2,3) by simp
    have n: "n = ?j * m + m" using tryPhrase_Some [OF some] by simp
    have "take n ?s = concat (replicate ?j ?x) @ ?x"
      unfolding b(4) by (rule concat_replicate_snoc)
    then have "drop (?j * m) (take n ?s) = ?x"
      using lx by (simp add: length_concat sum_list_replicate)
    moreover have "drop (?j * m) ?s = drop (?j * m) (take n ?s) @ ?rest"
    proof -
      have "drop (?j * m) (take n ?s @ ?rest) = drop (?j * m) (take n ?s) @ ?rest"
        using b(3) n by (simp only: drop_append) simp
      then show ?thesis by (simp only: append_take_drop_id)
    qed
    ultimately have "drop (?j * m) ?s = ?x @ ?rest" by simp
    then have last_copy: "noRun k (?x @ ?rest)"
      using noRun_drop [OF "2.prems", of "?j * m"] by simp
    have rest: "noRun k (replacePhrases lo ?rest)"
      using "2.IH"(2) [OF Some p [symmetric]] noRun_drop [OF "2.prems"] by blast
    have "noRun k (?x @ replacePhrases lo ?rest)"
      using last_copy rest by (rule noRun_splice [rotated]) (rule takeWhile_replacePhrases_le)
    then show ?thesis by (simp only: replacePhrases_Some [OF some])
  qed
qed

subsection \<open>Trimming\<close>

lemma length_trim: "length (trim s) \<le> length s"
proof -
  obtain xs ys where "s = xs @ trim s @ ys" using trim_decomp by blast
  then have "length s = length xs + length (trim s) + length ys"
    by (metis length_append add.assoc)
  then show ?thesis by simp
qed

lemma length_trim_eq: "length (trim s) = length s \<Longrightarrow> trim s = s"
proof -
  assume l: "length (trim s) = length s"
  obtain xs ys where d: "s = xs @ trim s @ ys" using trim_decomp by blast
  then have "length s = length xs + length (trim s) + length ys"
    by (metis length_append add.assoc)
  with l have "xs = []" "ys = []" by simp_all
  with d show ?thesis by simp
qed

lemma dropWhile_id: "xs \<noteq> [] \<Longrightarrow> \<not> P (hd xs) \<Longrightarrow> dropWhile P xs = xs"
  by (cases xs) auto

lemma trim_fixed:
  assumes "s = [] \<or> (\<not> isWhiteSpace (hd s) \<and> \<not> isWhiteSpace (last s))"
  shows "trim s = s"
proof (cases s)
  case Nil
  then show ?thesis by (simp add: trim_def)
next
  case (Cons a as)
  with assms have h: "\<not> isWhiteSpace a" and l: "\<not> isWhiteSpace (last s)" by simp_all
  have "dropWhile isWhiteSpace s = s" using h Cons by simp
  moreover have "dropWhile isWhiteSpace (rev s) = rev s"
  proof -
    have "rev s \<noteq> []" using Cons by simp
    moreover have "hd (rev s) = last s" using Cons by (simp add: hd_rev)
    ultimately show ?thesis using l by (intro dropWhile_id) simp_all
  qed
  ultimately show ?thesis by (simp add: trim_def)
qed

lemma trim_ends:
  "trim s = [] \<or> (\<not> isWhiteSpace (hd (trim s)) \<and> \<not> isWhiteSpace (last (trim s)))"
proof (cases "trim s = []")
  case True
  then show ?thesis by simp
next
  case False
  let ?u = "dropWhile isWhiteSpace s"
  let ?v = "dropWhile isWhiteSpace (rev ?u)"
  have t: "trim s = rev ?v" by (simp add: trim_def)
  with False have v: "?v \<noteq> []" by simp
  then have "\<not> isWhiteSpace (hd ?v)" by (rule hd_dropWhile)
  then have l: "\<not> isWhiteSpace (last (trim s))" using v t by (simp add: last_rev)
  obtain ys where u: "?u = trim s @ ys"
    unfolding trim_def using rev_dropWhile_rev by blast
  with False have "?u \<noteq> []" by auto
  then have "\<not> isWhiteSpace (hd ?u)" by (rule hd_dropWhile)
  moreover have "hd ?u = hd (trim s)" using u False by (metis hd_append2)
  ultimately show ?thesis using l by simp
qed

lemma trim_idem: "trim (trim s) = trim s"
  using trim_ends [of s] by (rule trim_fixed)

subsection \<open>The whole normalizer\<close>

lemma noRun_cleanText: "noRun 6 (cleanText s)"
  by (simp add: cleanText_def noRun_trim noRun_replacePhrases noRun_replaceRuns)

lemma noRun_cleanHallucinations: "noRun 5 (cleanHallucinations s)"
  by (simp add: cleanHallucinations_def noRun_replacePhrases noRun_replaceRuns)

lemma trim_cleanText: "trim (cleanText s) = cleanText s"
  by (simp add: cleanText_def trim_idem) (simp add: trim_def)

lemma cleanText_again:
  "cleanText (cleanText s) = trim (replacePhrases 4 (cleanText s))"
proof -
  have "replaceRuns 6 (cleanText s) = cleanText s"
    using noRun_cleanText by (rule noRun_replaceRuns_id)
  then show ?thesis
  proof (cases "cleanText s = []")
    case True
    then show ?thesis by (simp add: cleanText_def [of "[]"] trim_def)
  next
    case False
    with \<open>replaceRuns 6 (cleanText s) = cleanText s\<close> show ?thesis
      by (simp add: cleanText_def [of "cleanText s"])
  qed
qed

lemma cleanHallucinations_again:
  "cleanHallucinations (cleanHallucinations s) = replacePhrases 2 (cleanHallucinations s)"
proof -
  have "replaceRuns 5 (cleanHallucinations s) = cleanHallucinations s"
    using noRun_cleanHallucinations by (rule noRun_replaceRuns_id)
  then show ?thesis
    by (simp add: cleanHallucinations_def [of "cleanHallucinations s"])
qed

text \<open>
  C5, as stated, fails: the greedy phrase match takes the longest phrase that is
  followed by two copies of itself, and what it leaves can still be a repeat. Nine copies
  of \<open>abcd\<close> clean to three copies, and these clean to one.
\<close>

theorem clean_idempotent_counterexample:
  "cleanText (cleanText (concat (replicate 9 (ascii ''abcd'')))) \<noteq>
     cleanText (concat (replicate 9 (ascii ''abcd'')))
   \<and> cleanHallucinations (cleanHallucinations (concat (replicate 9 (ascii ''ab'')))) \<noteq>
     cleanHallucinations (concat (replicate 9 (ascii ''ab'')))"
proof -
  have a: "cleanText (concat (replicate 9 (ascii ''abcd''))) = concat (replicate 3 (ascii ''abcd''))"
    by code_simp
  have b: "cleanText (concat (replicate 3 (ascii ''abcd''))) = ascii ''abcd''"
    by code_simp
  have c: "cleanHallucinations (concat (replicate 9 (ascii ''ab''))) = concat (replicate 3 (ascii ''ab''))"
    by code_simp
  have d: "cleanHallucinations (concat (replicate 3 (ascii ''ab''))) = ascii ''ab''"
    by code_simp
  have e: "concat (replicate 3 (ascii ''abcd'')) \<noteq> ascii ''abcd''"
    "concat (replicate 3 (ascii ''ab'')) \<noteq> ascii ''ab''"
    by (simp_all add: ascii_def numeral_3_eq_3)
  show ?thesis unfolding a b c d using e by simp
qed

lemma countCopies_one_iff:
  "1 \<le> countCopies x t \<longleftrightarrow> x \<noteq> [] \<and> take (length x) t = x"
  by (subst countCopies.simps) simp

lemma countCopies_two_iff:
  "2 \<le> countCopies x t \<longleftrightarrow>
     x \<noteq> [] \<and> take (length x) t = x \<and> take (length x) (drop (length x) t) = x"
proof -
  have "2 \<le> countCopies x t \<longleftrightarrow>
      x \<noteq> [] \<and> take (length x) t = x \<and> 1 \<le> countCopies x (drop (length x) t)"
    by (subst countCopies.simps) auto
  then show ?thesis by (simp only: countCopies_one_iff) auto
qed

lemma tryPhrase_None_iff:
  "tryPhrase lo l s = None \<longleftrightarrow>
     (\<forall>L. 0 < L \<and> lo \<le> L \<and> L \<le> l \<longrightarrow> \<not> 2 \<le> countCopies (take L s) (drop L s))"
proof (induction l)
  case 0
  show ?case by auto
next
  case (Suc l)
  show ?case
  proof (cases "Suc l < lo")
    case True
    then show ?thesis by auto
  next
    case False
    show ?thesis
    proof (cases "2 \<le> countCopies (take (Suc l) s) (drop (Suc l) s)")
      case True
      then have "tryPhrase lo (Suc l) s \<noteq> None" using False by simp
      moreover have "0 < Suc l \<and> lo \<le> Suc l \<and> Suc l \<le> Suc l" using False by simp
      ultimately show ?thesis using True by blast
    next
      case no: False
      have "tryPhrase lo (Suc l) s = tryPhrase lo l s" using False no by simp
      moreover have "(\<forall>L. 0 < L \<and> lo \<le> L \<and> L \<le> Suc l \<longrightarrow> \<not> 2 \<le> countCopies (take L s) (drop L s))
          \<longleftrightarrow> (\<forall>L. 0 < L \<and> lo \<le> L \<and> L \<le> l \<longrightarrow> \<not> 2 \<le> countCopies (take L s) (drop L s))"
        using no by (metis le_Suc_eq)
      ultimately show ?thesis using Suc by simp
    qed
  qed
qed

lemma takeWhile_take: "L \<le> length (takeWhile P u) \<Longrightarrow> list_all P (take L u) \<and> L \<le> length u"
proof (induction u arbitrary: L)
  case Nil
  then show ?case by simp
next
  case (Cons a u)
  then show ?case by (cases L) (auto split: if_splits)
qed

lemma take_takeWhile: "list_all P (take L u) \<Longrightarrow> L \<le> length u \<Longrightarrow> L \<le> length (takeWhile P u)"
proof (induction u arbitrary: L)
  case Nil
  then show ?case by simp
next
  case (Cons a u)
  then show ?case by (cases L) auto
qed

lemma match_repeatsAt:
  "0 < L \<and> L \<le> length (takeWhile dot u) \<and> 2 \<le> countCopies (take L u) (drop L u)
     \<longleftrightarrow> repeatsAt L 0 u"
proof
  assume a: "0 < L \<and> L \<le> length (takeWhile dot u) \<and> 2 \<le> countCopies (take L u) (drop L u)"
  then have d: "list_all dot (take L u)" and lu: "L \<le> length u"
    using takeWhile_take [of L dot u] by simp_all
  then have lx: "length (take L u) = L" by simp
  from a have c: "take L (drop L u) = take L u" "take L (drop L (drop L u)) = take L u"
    unfolding countCopies_two_iff lx by simp_all
  have "length (take L (drop L (drop L u))) = L" using c(2) lx by simp
  then have "3 * L \<le> length u" using a by simp
  then show "repeatsAt L 0 u"
    using a d c by (simp add: repeatsAt_def mult_2)
next
  assume r: "repeatsAt L 0 u"
  then have L: "0 < L" and len: "3 * L \<le> length u" and d: "list_all dot (take L u)"
    and c: "take L (drop L u) = take L u" "take L (drop (2 * L) u) = take L u"
    by (simp_all add: repeatsAt_def)
  have lx: "length (take L u) = L" using len by simp
  have x: "take L u \<noteq> []" using L len by auto
  have "L \<le> length (takeWhile dot u)"
    using d len by (intro take_takeWhile) simp_all
  moreover have "2 \<le> countCopies (take L u) (drop L u)"
    unfolding countCopies_two_iff lx using x c by (simp add: mult_2)
  ultimately show "0 < L \<and> L \<le> length (takeWhile dot u) \<and> 2 \<le> countCopies (take L u) (drop L u)"
    using L by simp
qed

lemma tryPhrase_None_repeats:
  "tryPhrase lo (length (takeWhile dot u)) u = None \<longleftrightarrow> \<not> (\<exists>L. lo \<le> L \<and> repeatsAt L 0 u)"
  unfolding tryPhrase_None_iff match_repeatsAt [symmetric] by blast

lemma repeatsAt_Cons: "repeatsAt L (Suc i) (c # cs) = repeatsAt L i cs"
  by (simp add: repeatsAt_def)

lemma noPhrase_repeats: "noPhrase lo t \<longleftrightarrow> \<not> (\<exists>i L. lo \<le> L \<and> repeatsAt L i t)"
proof (induction t)
  case Nil
  show ?case by (simp add: repeatsAt_def)
next
  case (Cons c cs)
  have "(\<exists>i L. lo \<le> L \<and> repeatsAt L i (c # cs)) \<longleftrightarrow>
      (\<exists>L. lo \<le> L \<and> repeatsAt L 0 (c # cs)) \<or> (\<exists>i L. lo \<le> L \<and> repeatsAt L i cs)"
  proof
    assume "\<exists>i L. lo \<le> L \<and> repeatsAt L i (c # cs)"
    then obtain i L where il: "lo \<le> L" "repeatsAt L i (c # cs)" by blast
    then show "(\<exists>L. lo \<le> L \<and> repeatsAt L 0 (c # cs)) \<or> (\<exists>i L. lo \<le> L \<and> repeatsAt L i cs)"
      by (cases i) (auto simp: repeatsAt_Cons)
  next
    assume "(\<exists>L. lo \<le> L \<and> repeatsAt L 0 (c # cs)) \<or> (\<exists>i L. lo \<le> L \<and> repeatsAt L i cs)"
    then show "\<exists>i L. lo \<le> L \<and> repeatsAt L i (c # cs)"
      using repeatsAt_Cons by blast
  qed
  moreover have "noPhrase lo (c # cs) \<longleftrightarrow>
      \<not> (\<exists>L. lo \<le> L \<and> repeatsAt L 0 (c # cs)) \<and> noPhrase lo cs"
    using tryPhrase_None_repeats [of lo "c # cs"] by (simp del: takeWhile.simps)
  ultimately show ?case using Cons by blast
qed

text \<open>
  C5, amended. The run stage and the trim are idempotent, and cleaning a cleaned text
  never brings a run back. The whole function is idempotent exactly on the inputs whose
  cleaned text holds no repeated phrase: \<open>clean (clean s) = clean s\<close> if and only if there
  are no position \<open>i\<close> and length \<open>L\<close> of at least 4 (2 in part 002) such that the \<open>L\<close> code
  units of \<open>clean s\<close> at \<open>i\<close> hold no line terminator and are followed by two more copies
  of themselves. (\<open>noPhrase\<close> says the same through the matcher.)
\<close>

theorem clean_idempotent_iff:
  "(cleanText (cleanText s) = cleanText s \<longleftrightarrow>
      \<not> (\<exists>i L. 4 \<le> L \<and> repeatsAt L i (cleanText s)))
   \<and> (cleanHallucinations (cleanHallucinations s) = cleanHallucinations s \<longleftrightarrow>
        \<not> (\<exists>i L. 2 \<le> L \<and> repeatsAt L i (cleanHallucinations s)))
   \<and> (cleanText (cleanText s) = cleanText s \<longleftrightarrow> noPhrase 4 (cleanText s))
   \<and> (cleanHallucinations (cleanHallucinations s) = cleanHallucinations s \<longleftrightarrow>
        noPhrase 2 (cleanHallucinations s))
   \<and> replaceRuns 6 (replaceRuns 6 s) = replaceRuns 6 s
   \<and> replaceRuns 5 (replaceRuns 5 s) = replaceRuns 5 s
   \<and> replaceRuns 6 (cleanText s) = cleanText s
   \<and> replaceRuns 5 (cleanHallucinations s) = cleanHallucinations s
   \<and> trim (trim s) = trim s"
proof -
  let ?t = "cleanText s"
  have "cleanText ?t = ?t \<longleftrightarrow> replacePhrases 4 ?t = ?t"
  proof
    assume "cleanText ?t = ?t"
    then have "trim (replacePhrases 4 ?t) = ?t" by (simp add: cleanText_again)
    then have "length ?t \<le> length (replacePhrases 4 ?t)"
      using length_trim [of "replacePhrases 4 ?t"] by simp
    then have "length (replacePhrases 4 ?t) = length ?t"
      using length_replacePhrases [of 4 ?t] by simp
    then show "replacePhrases 4 ?t = ?t" by (rule length_replacePhrases_eq)
  next
    assume "replacePhrases 4 ?t = ?t"
    then show "cleanText ?t = ?t" by (simp add: cleanText_again trim_cleanText)
  qed
  then have a: "cleanText ?t = ?t \<longleftrightarrow> noPhrase 4 ?t"
    by (simp add: replacePhrases_fixed)
  have b: "cleanHallucinations (cleanHallucinations s) = cleanHallucinations s \<longleftrightarrow>
        noPhrase 2 (cleanHallucinations s)"
    by (simp add: cleanHallucinations_again replacePhrases_fixed)
  have c: "replaceRuns 6 (replaceRuns 6 s) = replaceRuns 6 s"
    "replaceRuns 5 (replaceRuns 5 s) = replaceRuns 5 s"
    "replaceRuns 6 (cleanText s) = cleanText s"
    "replaceRuns 5 (cleanHallucinations s) = cleanHallucinations s"
    "trim (trim s) = trim s"
    using noRun_cleanText [of s] noRun_cleanHallucinations [of s]
    by (simp_all add: replaceRuns_idem noRun_replaceRuns_id trim_idem)
  show ?thesis
    using a b c unfolding noPhrase_repeats by blast
qed

theorem clean_idempotent_iff_witness:
  "\<not> (\<exists>i L. 4 \<le> L \<and> repeatsAt L i (cleanText (ascii ''hellohellohello'')))
   \<and> cleanText (cleanText (ascii ''hellohellohello'')) = cleanText (ascii ''hellohellohello'')
   \<and> repeatsAt 4 0 (cleanText (concat (replicate 9 (ascii ''abcd''))))
   \<and> cleanText (cleanText (concat (replicate 9 (ascii ''abcd'')))) \<noteq>
       cleanText (concat (replicate 9 (ascii ''abcd'')))
   \<and> \<not> (\<exists>i L. 4 \<le> L \<and> repeatsAt L i
          (cleanText (concat (replicate 3 [0x61, 0x62, 0x0A, 0x63]))))
   \<and> cleanText (cleanText (concat (replicate 3 [0x61, 0x62, 0x0A, 0x63]))) =
       cleanText (concat (replicate 3 [0x61, 0x62, 0x0A, 0x63]))"
proof -
  have a: "noPhrase 4 (cleanText (ascii ''hellohellohello''))"
    by code_simp
  have b: "repeatsAt 4 0 (cleanText (concat (replicate 9 (ascii ''abcd''))))"
    by code_simp
  have c: "noPhrase 4 (cleanText (concat (replicate 3 [0x61, 0x62, 0x0A, 0x63])))"
    by code_simp
  have d: "(4 :: nat) \<le> 4"
    by simp
  show ?thesis
    using clean_idempotent_iff [of "ascii ''hellohellohello''"]
          clean_idempotent_iff [of "concat (replicate 9 (ascii ''abcd''))"]
          clean_idempotent_iff [of "concat (replicate 3 [0x61, 0x62, 0x0A, 0x63])"] a b c d
    by blast
qed

lemma takeWhile_replicate_same: "takeWhile (\<lambda>d. d = c) (replicate m c @ ys) = replicate m c @ takeWhile (\<lambda>d. d = c) ys"
  by (induction m) simp_all

lemma dropWhile_replicate_same: "dropWhile (\<lambda>d. d = c) (replicate m c @ ys) = dropWhile (\<lambda>d. d = c) ys"
  by (induction m) simp_all

lemma replaceRuns_embedded:
  assumes "pre = [] \<or> last pre \<noteq> c" and "dot c" and "k < n"
    and "suf = [] \<or> hd suf \<noteq> c"
  shows "replaceRuns k (pre @ replicate n c @ suf) = replaceRuns k pre @ c # replaceRuns k suf"
  using assms
proof (induction k pre rule: replaceRuns.induct)
  case (1 k)
  obtain m where n: "n = Suc m" and m: "k \<le> m"
    using "1.prems"(3) by (cases n) auto
  have s: "takeWhile (\<lambda>d. d = c) suf = []" "dropWhile (\<lambda>d. d = c) suf = suf"
    using "1.prems"(4) by (cases suf; simp)+
  have "takeWhile (\<lambda>d. d = c) (replicate m c @ suf) = replicate m c"
    "dropWhile (\<lambda>d. d = c) (replicate m c @ suf) = suf"
    by (simp_all add: takeWhile_replicate_same dropWhile_replicate_same s)
  then show ?case using "1.prems"(2) m unfolding n by simp
next
  case (2 k a cs)
  let ?rest = "replicate n c @ suf"
  have n0: "0 < n" using "2.prems"(3) by simp
  have hd_rest: "?rest \<noteq> []" "hd ?rest = c" using n0 by (cases n; simp)+
  have last_cs: "cs = [] \<or> last cs \<noteq> c" using "2.prems"(1) by (cases cs) auto
  have tw: "takeWhile (\<lambda>d. d = a) (cs @ ?rest) = takeWhile (\<lambda>d. d = a) cs"
    and dw: "dropWhile (\<lambda>d. d = a) (cs @ ?rest) = dropWhile (\<lambda>d. d = a) cs @ ?rest"
  proof -
    show "takeWhile (\<lambda>d. d = a) (cs @ ?rest) = takeWhile (\<lambda>d. d = a) cs"
    proof (cases "\<forall>d \<in> set cs. d = a")
      case True
      then have "a \<noteq> c" using "2.prems"(1) by (cases cs rule: rev_cases) auto
      then have "takeWhile (\<lambda>d. d = a) ?rest = []" using hd_rest by (cases ?rest) auto
      moreover have "takeWhile (\<lambda>d. d = a) (cs @ ?rest) = cs @ takeWhile (\<lambda>d. d = a) ?rest"
        using True by (intro takeWhile_append2) simp
      moreover have "takeWhile (\<lambda>d. d = a) cs = cs" using True by (simp add: takeWhile_eq_all_conv)
      ultimately show ?thesis by (simp only: append_Nil2)
    next
      case False
      then obtain d where "d \<in> set cs" "\<not> d = a" by blast
      then show ?thesis by (rule takeWhile_append1)
    qed
    show "dropWhile (\<lambda>d. d = a) (cs @ ?rest) = dropWhile (\<lambda>d. d = a) cs @ ?rest"
    proof (cases "\<forall>d \<in> set cs. d = a")
      case True
      then have "a \<noteq> c" using "2.prems"(1) by (cases cs rule: rev_cases) auto
      then have "dropWhile (\<lambda>d. d = a) ?rest = ?rest" using hd_rest by (cases ?rest) auto
      moreover have "dropWhile (\<lambda>d. d = a) (cs @ ?rest) = dropWhile (\<lambda>d. d = a) ?rest"
        using True by (intro dropWhile_append2) simp
      moreover have "dropWhile (\<lambda>d. d = a) cs = []" using True by simp
      ultimately show ?thesis by simp
    next
      case False
      then obtain d where "d \<in> set cs" "\<not> d = a" by blast
      then show ?thesis by (rule dropWhile_append1)
    qed
  qed
  show ?case
  proof (cases "dot a \<and> k \<le> length (takeWhile (\<lambda>d. d = a) cs)")
    case True
    let ?d = "dropWhile (\<lambda>d. d = a) cs"
    have "?d \<noteq> [] \<Longrightarrow> last ?d = last cs"
      by (metis takeWhile_dropWhile_id last_appendR)
    then have "?d = [] \<or> last ?d \<noteq> c"
      using last_cs by (cases "?d = []") auto
    then have "replaceRuns k (?d @ ?rest) = replaceRuns k ?d @ c # replaceRuns k suf"
      using "2.IH"(1) [OF True _ "2.prems"(2-4)] by simp
    then show ?thesis using True tw dw by simp
  next
    case False
    have "replaceRuns k (cs @ ?rest) = replaceRuns k cs @ c # replaceRuns k suf"
      using "2.IH"(2) [OF False last_cs "2.prems"(2-4)] by simp
    then show ?thesis using False tw by auto
  qed
qed

lemma replacePhrases_single: "replacePhrases lo [c] = [c]"
proof -
  have "tryPhrase lo (length (takeWhile dot [c])) [c] = None"
    by (simp add: countCopies_Nil)
  then show ?thesis by (simp add: replacePhrases_None del: takeWhile.simps)
qed

lemma whiteSpace_dot: "\<not> isWhiteSpace c \<Longrightarrow> dot c"
  by (auto simp: isWhiteSpace_def dot_def isLineTerminator_def)

lemma cleanText_replicate:
  assumes "\<not> isWhiteSpace c" and "7 \<le> n"
  shows "cleanText (replicate n c) = [c]"
proof -
  have "replaceRuns 6 (replicate n c) = [c]"
    using assms by (intro replaceRuns_replicate whiteSpace_dot) simp_all
  moreover have "replicate n c \<noteq> []" using assms(2) by auto
  moreover have "trim [c] = [c]" using assms(1) by (simp add: trim_def)
  ultimately show ?thesis by (simp add: cleanText_def replacePhrases_single)
qed

lemma cleanHallucinations_replicate:
  assumes "dot c" and "6 \<le> n"
  shows "cleanHallucinations (replicate n c) = [c]"
proof -
  have "replaceRuns 5 (replicate n c) = [c]"
    using assms by (intro replaceRuns_replicate) simp_all
  then show ?thesis by (simp add: cleanHallucinations_def replacePhrases_single)
qed

lemma countCopies_twice: "x \<noteq> [] \<Longrightarrow> countCopies x (x @ x) = 2"
proof -
  assume x: "x \<noteq> []"
  have "countCopies x (x @ x) = Suc (countCopies x x)"
    using x by (subst countCopies.simps) simp
  also have "countCopies x x = Suc (countCopies x [])"
    using x by (subst countCopies.simps) simp
  finally show ?thesis by (simp add: countCopies_Nil)
qed

lemma tryPhrase_triple:
  assumes "x \<noteq> []" and "lo \<le> length x"
  shows "tryPhrase lo (length x + d) (x @ x @ x) = Some (length x, 3 * length x)"
proof (induction d)
  case 0
  obtain m where m: "length x = Suc m" using assms(1) by (cases x) auto
  have "take (Suc m) (x @ x @ x) = x" "drop (Suc m) (x @ x @ x) = x @ x"
    using m by simp_all
  then show ?case
    using assms m by (simp add: countCopies_twice)
next
  case (Suc d)
  define s where "s = x @ x @ x"
  define L where "L = Suc (length x + d)"
  have ls: "length s = 3 * length x" by (simp add: s_def)
  have "countCopies (take L s) (drop L s) < 2"
  proof (rule ccontr)
    assume "\<not> ?thesis"
    then have two: "2 \<le> countCopies (take L s) (drop L s)" by simp
    have le: "countCopies (take L s) (drop L s) * length (take L s) \<le> length (drop L s)"
      by (rule countCopies_len)
    show False
    proof (cases "L \<le> length s")
      case True
      then have "length (take L s) = L" by simp
      with le have "countCopies (take L s) (drop L s) * L \<le> 3 * length x - L"
        using ls by simp
      moreover have "2 * L \<le> countCopies (take L s) (drop L s) * L"
        using two by (rule mult_le_mono1)
      ultimately show False unfolding L_def by simp
    next
      case False
      then have "drop L s = []" by simp
      with two show False by (simp add: countCopies_Nil)
    qed
  qed
  moreover have "\<not> L < lo" using assms(2) by (simp add: L_def)
  moreover have "tryPhrase lo (length x + d) s = Some (length x, 3 * length x)"
    using Suc by (simp add: s_def)
  ultimately have "tryPhrase lo L s = Some (length x, 3 * length x)"
    unfolding L_def by simp
  then show ?case by (simp add: s_def L_def)
qed

lemma replacePhrases_triple:
  assumes "x \<noteq> []" and "lo \<le> length x" and "list_all dot x"
  shows "replacePhrases lo (x @ x @ x) = x"
proof -
  obtain c cs where s: "x @ x @ x = c # cs" using assms(1) by (cases x) auto
  have "list_all dot (x @ x @ x)" using assms(3) by simp
  then have "\<forall>c \<in> set (x @ x @ x). dot c"
    by (simp only: list_all_iff)
  then have "takeWhile dot (x @ x @ x) = x @ x @ x"
    by (simp only: takeWhile_eq_all_conv)
  then have "length (takeWhile dot (x @ x @ x)) = length (x @ x @ x)"
    by (simp only:)
  then have "length (takeWhile dot (c # cs)) = length x + 2 * length x"
    unfolding s [symmetric] by (simp only: length_append mult_2)
  then have "tryPhrase lo (length (takeWhile dot (c # cs))) (c # cs) =
      Some (length x, 3 * length x)"
    using tryPhrase_triple [OF assms(1,2), of "2 * length x"] s by simp
  then have "replacePhrases lo (c # cs) =
      take (length x) (c # cs) @ replacePhrases lo (drop (3 * length x) (c # cs))"
    by (rule replacePhrases_Some)
  then show ?thesis unfolding s [symmetric] by simp
qed

lemma cleanText_triple:
  assumes "4 \<le> length x" and "list_all dot x" and "noRun 6 (x @ x @ x)"
    and "\<not> isWhiteSpace (hd x)" and "\<not> isWhiteSpace (last x)"
  shows "cleanText (x @ x @ x) = x"
proof -
  have x: "x \<noteq> []" using assms(1) by auto
  have "replaceRuns 6 (x @ x @ x) = x @ x @ x"
    using assms(3) by (rule noRun_replaceRuns_id)
  moreover have "replacePhrases 4 (x @ x @ x) = x"
    using x assms(1,2) by (rule replacePhrases_triple)
  moreover have "trim x = x"
    using assms(4,5) by (intro trim_fixed) simp
  ultimately show ?thesis using x by (simp add: cleanText_def)
qed

lemma cleanHallucinations_triple:
  assumes "2 \<le> length x" and "list_all dot x" and "noRun 5 (x @ x @ x)"
  shows "cleanHallucinations (x @ x @ x) = x"
proof -
  have x: "x \<noteq> []" using assms(1) by auto
  have "replaceRuns 5 (x @ x @ x) = x @ x @ x"
    using assms(3) by (rule noRun_replaceRuns_id)
  moreover have "replacePhrases 2 (x @ x @ x) = x"
    using x assms(1,2) by (rule replacePhrases_triple)
  ultimately show ?thesis by (simp add: cleanHallucinations_def)
qed

lemma encode_replicate_bmp: "cp < 0x10000 \<Longrightarrow> encode (replicate n cp) = replicate n (of_nat cp)"
  by (induction n) (simp_all add: encode_def utf16_def)

lemma encode_append: "encode (xs @ ys) = encode xs @ encode ys"
  by (simp add: encode_def)

text \<open>
  C6, as stated, fails on types.ts: its pattern \<open>(.)\1{6,}\<close> needs the character and six
  more copies, so a run of exactly six is left alone.
\<close>

theorem run_of_six_counterexample:
  "cleanText (ascii ''aaaaaa'') = ascii ''aaaaaa'' \<and> cleanText (ascii ''aaaaaa'') \<noteq> ascii ''a''"
proof -
  have a: "cleanText (ascii ''aaaaaa'') = ascii ''aaaaaa''"
    by code_simp
  have b: "ascii ''aaaaaa'' \<noteq> ascii ''a''"
    by (simp add: ascii_def)
  show ?thesis using a b by simp
qed

text \<open>
  C6, amended. In types.ts a run of 7 or more copies of one character collapses to one
  instance (6 or more in part 002); the character is any code unit but a line terminator,
  and at the ends of the text white space is trimmed away. For every input the cleaned
  text holds no such run; a text that is one run cleans to the single character; a run
  inside a text is replaced by one instance by the run stage, whatever surrounds it.
  The three examples hold in both revisions.
\<close>

theorem run_collapse:
  "noRun 6 (cleanText s) \<and> noRun 5 (cleanHallucinations s)
   \<and> (\<not> isWhiteSpace c \<and> 7 \<le> n \<longrightarrow> cleanText (replicate n c) = [c])
   \<and> (dot c \<and> 6 \<le> n \<longrightarrow> cleanHallucinations (replicate n c) = [c])
   \<and> ((pre = [] \<or> last pre \<noteq> c) \<and> dot c \<and> (suf = [] \<or> hd suf \<noteq> c) \<longrightarrow>
        (7 \<le> n \<longrightarrow> replaceRuns 6 (pre @ replicate n c @ suf) =
                      replaceRuns 6 pre @ c # replaceRuns 6 suf)
        \<and> (6 \<le> n \<longrightarrow> replaceRuns 5 (pre @ replicate n c @ suf) =
                      replaceRuns 5 pre @ c # replaceRuns 5 suf))
   \<and> cleanText (ascii ''aaaaaaa'') = ascii ''a''
   \<and> cleanText (ascii ''hellohellohello'') = ascii ''hello''
   \<and> cleanText (ascii ''ok'') = ascii ''ok''
   \<and> cleanHallucinations (ascii ''aaaaaaa'') = ascii ''a''
   \<and> cleanHallucinations (ascii ''hellohellohello'') = ascii ''hello''
   \<and> cleanHallucinations (ascii ''ok'') = ascii ''ok''"
proof -
  have e1: "cleanText (ascii ''aaaaaaa'') = ascii ''a''"
    by code_simp
  have e2: "cleanText (ascii ''hellohellohello'') = ascii ''hello''"
    by code_simp
  have e3: "cleanText (ascii ''ok'') = ascii ''ok''"
    by code_simp
  have e4: "cleanHallucinations (ascii ''aaaaaaa'') = ascii ''a''"
    by code_simp
  have e5: "cleanHallucinations (ascii ''hellohellohello'') = ascii ''hello''"
    by code_simp
  have e6: "cleanHallucinations (ascii ''ok'') = ascii ''ok''"
    by code_simp
  have r: "(pre = [] \<or> last pre \<noteq> c) \<and> dot c \<and> (suf = [] \<or> hd suf \<noteq> c) \<longrightarrow>
        (7 \<le> n \<longrightarrow> replaceRuns 6 (pre @ replicate n c @ suf) =
                      replaceRuns 6 pre @ c # replaceRuns 6 suf)
        \<and> (6 \<le> n \<longrightarrow> replaceRuns 5 (pre @ replicate n c @ suf) =
                      replaceRuns 5 pre @ c # replaceRuns 5 suf)"
    using replaceRuns_embedded [of pre c 6 n suf] replaceRuns_embedded [of pre c 5 n suf]
    by auto
  show ?thesis
    using e1 e2 e3 e4 e5 e6 r noRun_cleanText [of s] noRun_cleanHallucinations [of s]
      cleanText_replicate [of c n] cleanHallucinations_replicate [of c n]
    by blast
qed

theorem run_collapse_witness:
  "\<not> isWhiteSpace (0x61 :: unit16) \<and> dot (0x61 :: unit16) \<and> last (ascii ''x'') \<noteq> 0x61
   \<and> hd (ascii ''y'') \<noteq> 0x61
   \<and> noRun 6 (cleanText (ascii ''xaaaaaaaay''))
   \<and> cleanText (replicate 8 0x61) = [0x61]
   \<and> cleanHallucinations (replicate 8 0x61) = [0x61]
   \<and> replaceRuns 6 (ascii ''x'' @ replicate 8 0x61 @ ascii ''y'') =
       replaceRuns 6 (ascii ''x'') @ 0x61 # replaceRuns 6 (ascii ''y'')"
proof -
  have h: "\<not> isWhiteSpace (0x61 :: unit16)" "dot (0x61 :: unit16)"
    "last (ascii ''x'') \<noteq> 0x61" "hd (ascii ''y'') \<noteq> 0x61"
    by code_simp+
  have n: "(7 :: nat) \<le> 8" "(6 :: nat) \<le> 8"
    by simp_all
  show ?thesis
    using run_collapse [of "ascii ''xaaaaaaaay''" "0x61" 8 "ascii ''x''" "ascii ''y''"] h n
    by blast
qed

text \<open>
  C9, as stated, fails: the patterns have no \<open>u\<close> flag, so the repeat unit is the UTF-16
  code unit. A character outside the Basic Multilingual Plane, such as the CJK character
  U+20000, is two code units; seven copies of it are no run for the run stage, and the
  phrase stage cuts them to three copies, not to one.
\<close>

theorem surrogate_run_counterexample:
  "cleanText (encode (replicate 7 0x20000)) = encode (replicate 3 0x20000)
   \<and> cleanText (encode (replicate 7 0x20000)) \<noteq> encode [0x20000]
   \<and> cleanHallucinations (encode (replicate 7 0x20000)) = encode (replicate 3 0x20000)"
proof -
  have enc: "encode (replicate n 0x20000) = concat (replicate n [0xD840, 0xDC00])" for n
    by (induction n) (simp_all add: encode_def utf16_def)
  have one: "encode [0x20000] = [0xD840, 0xDC00]"
    by (simp add: encode_def utf16_def)
  have a: "cleanText (concat (replicate 7 [0xD840, 0xDC00])) = concat (replicate 3 [0xD840, 0xDC00])"
    by code_simp
  have b: "concat (replicate 3 [0xD840, 0xDC00]) \<noteq> [0xD840 :: unit16, 0xDC00]"
    by code_simp
  have c: "cleanHallucinations (concat (replicate 7 [0xD840, 0xDC00])) =
      concat (replicate 3 [0xD840, 0xDC00])"
    by code_simp
  show ?thesis unfolding enc one using a b c by simp
qed

lemma set_replaceRuns: "set (replaceRuns k s) \<subseteq> set s"
proof (induction k s rule: replaceRuns.induct)
  case (1 k)
  show ?case by simp
next
  case (2 k c cs)
  have "set (dropWhile (\<lambda>d. d = c) cs) \<subseteq> set cs" by (rule set_dropWhileD [THEN subsetI])
  with 2 show ?case by auto
qed

lemma set_replacePhrases: "set (replacePhrases lo s) \<subseteq> set s"
proof (induction lo s rule: replacePhrases.induct)
  case (1 lo)
  show ?case by simp
next
  case (2 lo c cs)
  show ?case
  proof (cases "tryPhrase lo (length (takeWhile dot (c # cs))) (c # cs)")
    case None
    then show ?thesis
      using "2.IH"(1) [OF None] by (auto simp: replacePhrases_None [OF None])
  next
    case (Some p)
    obtain m n where p: "p = (m, n)" by (cases p)
    have "set (replacePhrases lo (drop n (c # cs))) \<subseteq> set (drop n (c # cs))"
      using "2.IH"(2) [OF Some p [symmetric]] .
    moreover have "set (drop n (c # cs)) \<subseteq> set (c # cs)" by (rule set_drop_subset)
    moreover have "set (take m (c # cs)) \<subseteq> set (c # cs)" by (rule set_take_subset)
    ultimately show ?thesis
      unfolding replacePhrases_Some [OF Some [unfolded p]] by auto
  qed
qed

lemma trim_all_white: "\<forall>c \<in> set s. isWhiteSpace c \<Longrightarrow> trim s = []"
proof -
  assume "\<forall>c \<in> set s. isWhiteSpace c"
  then have "dropWhile isWhiteSpace s = []" by (induction s) simp_all
  then show ?thesis unfolding trim_def by (simp only: rev.simps dropWhile.simps)
qed

lemma cleanText_white_run: "isWhiteSpace c \<Longrightarrow> cleanText (replicate n c) = []"
proof -
  assume w: "isWhiteSpace c"
  have "set (replacePhrases 4 (replaceRuns 6 (replicate n c))) \<subseteq> set (replicate n c)"
    using set_replacePhrases set_replaceRuns by (rule subset_trans)
  then have "\<forall>d \<in> set (replacePhrases 4 (replaceRuns 6 (replicate n c))). isWhiteSpace d"
    using w by auto
  then show ?thesis by (simp add: cleanText_def trim_all_white)
qed

lemma replaceRuns_terminators: "\<not> dot c \<Longrightarrow> replaceRuns k (replicate n c) = replicate n c"
  by (induction n) simp_all

lemma replacePhrases_terminators: "\<not> dot c \<Longrightarrow> replacePhrases lo (replicate n c) = replicate n c"
proof (induction n)
  case 0
  show ?case by simp
next
  case (Suc n)
  have "tryPhrase lo (length (takeWhile dot (c # replicate n c))) (c # replicate n c) = None"
    using Suc.prems by simp
  then have "replacePhrases lo (c # replicate n c) = c # replacePhrases lo (replicate n c)"
    by (rule replacePhrases_None)
  then show ?case using Suc by simp
qed

lemma cleanHallucinations_terminators:
  "\<not> dot c \<Longrightarrow> cleanHallucinations (replicate n c) = replicate n c"
  by (simp add: cleanHallucinations_def replaceRuns_terminators replacePhrases_terminators)

text \<open>
  C9, amended. The repeat unit of \<open>clean\<close> is the UTF-16 code unit. A character of the
  Basic Multilingual Plane is one code unit; a run of 7 or more copies of such a
  character that is not white space cleans to the one character in types.ts (a run of
  white space cleans to the empty text), and a run of 6 or more copies of such a
  character that is not a line terminator cleans to the one character in part 002 (a
  run of a line terminator is left as it is). A phrase of whole characters, in or
  outside the plane, cleans from three copies to one when its encoding is at least 4 code
  units long (2 in part 002) and holds no line terminator, the three copies written one
  after another hold no run of 7 (6 in part 002) or more equal code units, and, in
  types.ts, the phrase neither starts nor ends with white space.
\<close>

theorem unit_collapse:
  "(cp < 0x10000 \<and> \<not> isWhiteSpace (of_nat cp) \<and> 7 \<le> n \<longrightarrow>
      cleanText (encode (replicate n cp)) = encode [cp])
   \<and> (cp < 0x10000 \<and> dot (of_nat cp) \<and> 6 \<le> n \<longrightarrow>
        cleanHallucinations (encode (replicate n cp)) = encode [cp])
   \<and> (4 \<le> length (encode cps) \<and> list_all dot (encode cps)
        \<and> noRun 6 (encode (cps @ cps @ cps))
        \<and> \<not> isWhiteSpace (hd (encode cps)) \<and> \<not> isWhiteSpace (last (encode cps)) \<longrightarrow>
        cleanText (encode (cps @ cps @ cps)) = encode cps)
   \<and> (2 \<le> length (encode cps) \<and> list_all dot (encode cps)
        \<and> noRun 5 (encode (cps @ cps @ cps)) \<longrightarrow>
        cleanHallucinations (encode (cps @ cps @ cps)) = encode cps)
   \<and> (cp < 0x10000 \<and> isWhiteSpace (of_nat cp) \<longrightarrow>
        cleanText (encode (replicate n cp)) = [])
   \<and> (cp < 0x10000 \<and> \<not> dot (of_nat cp) \<longrightarrow>
        cleanHallucinations (encode (replicate n cp)) = encode (replicate n cp))"
proof -
  have one: "cp < 0x10000 \<Longrightarrow> encode [cp] = [of_nat cp]"
    by (simp add: encode_def utf16_def)
  have a: "cp < 0x10000 \<and> \<not> isWhiteSpace (of_nat cp) \<and> 7 \<le> n \<longrightarrow>
      cleanText (encode (replicate n cp)) = encode [cp]"
    using cleanText_replicate [of "of_nat cp" n] by (simp add: encode_replicate_bmp one)
  have b: "cp < 0x10000 \<and> dot (of_nat cp) \<and> 6 \<le> n \<longrightarrow>
        cleanHallucinations (encode (replicate n cp)) = encode [cp]"
    using cleanHallucinations_replicate [of "of_nat cp" n]
    by (simp add: encode_replicate_bmp one)
  have c: "4 \<le> length (encode cps) \<and> list_all dot (encode cps)
        \<and> noRun 6 (encode (cps @ cps @ cps))
        \<and> \<not> isWhiteSpace (hd (encode cps)) \<and> \<not> isWhiteSpace (last (encode cps)) \<longrightarrow>
        cleanText (encode (cps @ cps @ cps)) = encode cps"
    using cleanText_triple [of "encode cps"] by (simp only: encode_append) blast
  have d: "2 \<le> length (encode cps) \<and> list_all dot (encode cps)
        \<and> noRun 5 (encode (cps @ cps @ cps)) \<longrightarrow>
        cleanHallucinations (encode (cps @ cps @ cps)) = encode cps"
    using cleanHallucinations_triple [of "encode cps"] by (simp only: encode_append) blast
  have w: "cp < 0x10000 \<and> isWhiteSpace (of_nat cp) \<longrightarrow>
        cleanText (encode (replicate n cp)) = []"
    using cleanText_white_run [of "of_nat cp" n] by (simp add: encode_replicate_bmp)
  have t: "cp < 0x10000 \<and> \<not> dot (of_nat cp) \<longrightarrow>
        cleanHallucinations (encode (replicate n cp)) = encode (replicate n cp)"
    using cleanHallucinations_terminators [of "of_nat cp" n] by (simp add: encode_replicate_bmp)
  show ?thesis using a b c d w t by blast
qed

theorem unit_collapse_witness:
  "(0x4F60 :: nat) < 0x10000 \<and> \<not> isWhiteSpace (of_nat 0x4F60) \<and> dot (of_nat 0x4F60)
   \<and> cleanText (encode (replicate 7 0x4F60)) = encode [0x4F60]
   \<and> cleanHallucinations (encode (replicate 7 0x4F60)) = encode [0x4F60]
   \<and> 4 \<le> length (encode [0x4F60, 0x597D, 0x61, 0x20000])
   \<and> list_all dot (encode [0x4F60, 0x597D, 0x61, 0x20000])
   \<and> noRun 6 (encode ([0x4F60, 0x597D, 0x61, 0x20000] @ [0x4F60, 0x597D, 0x61, 0x20000]
                        @ [0x4F60, 0x597D, 0x61, 0x20000]))
   \<and> \<not> isWhiteSpace (hd (encode [0x4F60, 0x597D, 0x61, 0x20000]))
   \<and> \<not> isWhiteSpace (last (encode [0x4F60, 0x597D, 0x61, 0x20000]))
   \<and> cleanText (encode ([0x4F60, 0x597D, 0x61, 0x20000] @ [0x4F60, 0x597D, 0x61, 0x20000]
                        @ [0x4F60, 0x597D, 0x61, 0x20000])) =
       encode [0x4F60, 0x597D, 0x61, 0x20000]
   \<and> cleanHallucinations (encode ([0x4F60, 0x597D, 0x61, 0x20000] @ [0x4F60, 0x597D, 0x61, 0x20000]
                        @ [0x4F60, 0x597D, 0x61, 0x20000])) =
       encode [0x4F60, 0x597D, 0x61, 0x20000]
   \<and> (0x3000 :: nat) < 0x10000 \<and> isWhiteSpace (of_nat 0x3000)
   \<and> cleanText (encode (replicate 7 0x3000)) = []
   \<and> (0x2028 :: nat) < 0x10000 \<and> \<not> dot (of_nat 0x2028)
   \<and> cleanHallucinations (encode (replicate 7 0x2028)) = encode (replicate 7 0x2028)"
proof -
  have enc: "encode [0x4F60, 0x597D, 0x61, 0x20000] = [0x4F60, 0x597D, 0x61, 0xD840, 0xDC00]"
    by (simp add: encode_def utf16_def)
  have u: "(of_nat 0x4F60 :: unit16) = 0x4F60"
    by simp
  have h1: "(0x4F60 :: nat) < 0x10000"
    by simp
  have h2: "\<not> isWhiteSpace (of_nat 0x4F60)" "dot (of_nat 0x4F60)"
    unfolding u by code_simp+
  have h3: "4 \<le> length (encode [0x4F60, 0x597D, 0x61, 0x20000])"
    "2 \<le> length (encode [0x4F60, 0x597D, 0x61, 0x20000])"
    "list_all dot (encode [0x4F60, 0x597D, 0x61, 0x20000])"
    "\<not> isWhiteSpace (hd (encode [0x4F60, 0x597D, 0x61, 0x20000]))"
    "\<not> isWhiteSpace (last (encode [0x4F60, 0x597D, 0x61, 0x20000]))"
    unfolding enc by code_simp+
  have h4: "noRun 6 (encode ([0x4F60, 0x597D, 0x61, 0x20000] @ [0x4F60, 0x597D, 0x61, 0x20000]
                        @ [0x4F60, 0x597D, 0x61, 0x20000]))"
    "noRun 5 (encode ([0x4F60, 0x597D, 0x61, 0x20000] @ [0x4F60, 0x597D, 0x61, 0x20000]
                        @ [0x4F60, 0x597D, 0x61, 0x20000]))"
    unfolding encode_append enc by code_simp+
  have n: "(7 :: nat) \<le> 7" "(6 :: nat) \<le> 7"
    by simp_all
  have u3: "(of_nat 0x3000 :: unit16) = 0x3000" "(of_nat 0x2028 :: unit16) = 0x2028"
    by simp_all
  have h5: "(0x3000 :: nat) < 0x10000" "(0x2028 :: nat) < 0x10000"
    by simp_all
  have h6: "isWhiteSpace (of_nat 0x3000)" "\<not> dot (of_nat 0x2028)"
    unfolding u3 by code_simp+
  have r1: "cleanText (encode (replicate 7 0x4F60)) = encode [0x4F60]"
    "cleanHallucinations (encode (replicate 7 0x4F60)) = encode [0x4F60]"
    "cleanText (encode ([0x4F60, 0x597D, 0x61, 0x20000] @ [0x4F60, 0x597D, 0x61, 0x20000]
                        @ [0x4F60, 0x597D, 0x61, 0x20000])) =
       encode [0x4F60, 0x597D, 0x61, 0x20000]"
    "cleanHallucinations (encode ([0x4F60, 0x597D, 0x61, 0x20000] @ [0x4F60, 0x597D, 0x61, 0x20000]
                        @ [0x4F60, 0x597D, 0x61, 0x20000])) =
       encode [0x4F60, 0x597D, 0x61, 0x20000]"
    using unit_collapse [of "0x4F60" 7 "[0x4F60, 0x597D, 0x61, 0x20000]"] h1 h2 h3 h4 n
    by blast+
  have r2: "cleanText (encode (replicate 7 0x3000)) = []"
    using unit_collapse [of "0x3000" 7 "[]"] h5(1) h6(1) by blast
  have r3: "cleanHallucinations (encode (replicate 7 0x2028)) = encode (replicate 7 0x2028)"
    using unit_collapse [of "0x2028" 7 "[]"] h5(2) h6(2) by blast
  show ?thesis
    using h1 h2 h3(1,3,4,5) h4(1) h5 h6 r1 r2 r3 by blast
qed

end
